theory Spec2Isabelle
  imports Main "HOL-Library.Word"
begin

section \<open>Values shared by the stores\<close>

text \<open>
  Keys are JavaScript strings, blobs are byte sequences. A rejected promise and a thrown
  \<open>Error\<close> are both the left summand of a result (only for \<open>move\<close>, below, does the
  difference matter). A source stream either ends after
  delivering its bytes or emits an error (the bytes are then what it delivers in all).
  Among the values, \<open>Readable\<close> is such a stream and \<open>Unfinished\<close> is a stream that
  never ends.
\<close>

type_synonym key = string
type_synonym bytes = "8 word list"

datatype error = Error string

type_synonym 'a result = "error + 'a"

datatype source = Ends bytes | Errors bytes error

datatype val = Undefined | Null | Bool bool | Num int | Str string | Readable source | Unfinished

fun truthy :: "val \<Rightarrow> bool" where
  "truthy Undefined = False"
| "truthy Null = False"
| "truthy (Bool b) = b"
| "truthy (Num n) = (n \<noteq> 0)"
| "truthy (Str s) = (s \<noteq> [])"
| "truthy (Readable r) = True"
| "truthy Unfinished = True"

text \<open>
  \<open>this.data\<close> of a MemoryStore and \<open>this.moves\<close> of a CacheStore are plain objects. A read
  \<open>object[key]\<close> that finds no own property goes on to the properties that every object
  inherits; \<open>inherited\<close> names them. All of them are truthy: they are functions, except
  \<open>__proto__\<close>, which reads as the prototype itself.
\<close>

definition inherited :: "string \<Rightarrow> bool" where
  "inherited name =
     (name \<in> set [''constructor'', ''toString'', ''toLocaleString'', ''valueOf'',
                   ''hasOwnProperty'', ''isPrototypeOf'', ''propertyIsEnumerable'',
                   ''__proto__'', ''__defineGetter__'', ''__defineSetter__'',
                   ''__lookupGetter__'', ''__lookupSetter__''])"

text \<open>
  The store interface lets \<open>move\<close> throw instead of returning a rejected promise, so a call
  of \<open>move\<close> has three outcomes. A throw inside a promise callback is a rejection
  (\<open>settle\<close>).
\<close>

datatype outcome = Threw error | Rejected error | Resolved val

fun settle :: "outcome \<Rightarrow> val result" where
  "settle (Threw e) = Inl e"
| "settle (Rejected e) = Inl e"
| "settle (Resolved v) = Inr v"

section \<open>MemoryStore (lib/backends/MemoryStore.js)\<close>

text \<open>
  The own properties of \<open>this.data\<close> are the map \<open>data\<close>; a read that finds no own
  property finds \<open>Inherited k\<close> under an inherited name \<open>k\<close> (\<open>found\<close>). What is stored
  is what \<open>writer.getContents()\<close> returned. The writer is a \<open>WritableStreamBuffer\<close> of
  the stream-buffers package, whose \<open>getContents\<close> returns \<open>false\<close> instead of a buffer when
  nothing was written to it; \<open>NoContents\<close> is that value.

  A write under \<open>__proto__\<close> that finds no own property of that name creates none
  (\<open>assign\<close>): it is ignored when the value is \<open>false\<close>, and otherwise it makes the value
  the prototype of \<open>this.data\<close>, which \<open>prototype\<close> records (\<open>None\<close> while the prototype
  is the one every plain object has). What a store whose prototype has been replaced
  inherits, and so what its methods do from then on, is a matter of the JavaScript runtime
  and not of this repository: the model takes it as the parameters \<open>beyond_ensure\<close>,
  \<open>beyond_stream\<close>, \<open>beyond_move\<close> and \<open>beyond_exists\<close>. In the same way \<open>piped\<close> is
  what piping a value that is not a buffer, found under an inherited name, into the
  destination yields. Deleting an own property needs none of this.
\<close>

datatype contents = Buffer bytes | NoContents | Inherited key

record MemoryStore =
  data :: "key \<rightharpoonup> contents"
  prototype :: "contents option"

record runtime =
  piped :: "key \<Rightarrow> bytes result"
  beyond_ensure :: "key \<Rightarrow> source \<Rightarrow> MemoryStore \<Rightarrow> val result \<times> MemoryStore"
  beyond_stream :: "key \<Rightarrow> MemoryStore \<Rightarrow> bytes result \<times> MemoryStore"
  beyond_move :: "key \<Rightarrow> key \<Rightarrow> MemoryStore \<Rightarrow> outcome \<times> MemoryStore"
  beyond_exists :: "key \<Rightarrow> MemoryStore \<Rightarrow> val result \<times> MemoryStore"

definition getContents :: "bytes \<Rightarrow> contents" where
  "getContents written = (if written = [] then NoContents else Buffer written)"

definition does_not_exist :: "key \<Rightarrow> error" where
  "does_not_exist k = Error (''Key '' @ [CHR 0x27] @ k @ [CHR 0x27] @ '' does not exist!'')"

definition found :: "MemoryStore \<Rightarrow> key \<Rightarrow> contents option" where
  \<comment> \<open>\<open>this.data[key]\<close> while the prototype is the original one; \<open>None\<close> is \<open>undefined\<close>\<close>
  "found st k =
     (case data st k of
        Some v \<Rightarrow> Some v
      | None \<Rightarrow> if inherited k then Some (Inherited k) else None)"

fun present :: "contents option \<Rightarrow> bool" where
  \<comment> \<open>truthiness of what a read found\<close>
  "present (Some (Buffer buf)) = True"
| "present (Some (Inherited k)) = True"
| "present (Some NoContents) = False"
| "present None = False"

definition assign :: "MemoryStore \<Rightarrow> key \<Rightarrow> contents \<Rightarrow> MemoryStore" where
  \<comment> \<open>\<open>this.data[key] = v\<close> while the prototype is the original one\<close>
  "assign st k v =
     (if k = ''__proto__'' \<and> data st k = None then
        (case v of
           NoContents \<Rightarrow> st
         | Inherited n \<Rightarrow> if n = ''__proto__'' then st else st\<lparr>prototype := Some v\<rparr>
         | Buffer buf \<Rightarrow> st\<lparr>prototype := Some v\<rparr>)
      else st\<lparr>data := (data st)(k \<mapsto> v)\<rparr>)"

definition MemoryStore_ensure ::
  "runtime \<Rightarrow> key \<Rightarrow> source \<Rightarrow> MemoryStore \<Rightarrow> val result \<times> MemoryStore" where
  "MemoryStore_ensure rt k sourceStream st =
     (case sourceStream of
        Errors delivered e \<Rightarrow> (Inl e, st)
      | Ends written \<Rightarrow>
          if prototype st \<noteq> None then beyond_ensure rt k sourceStream st
          else (Inr Undefined, assign st k (getContents written)))"

definition MemoryStore_stream :: "runtime \<Rightarrow> key \<Rightarrow> MemoryStore \<Rightarrow> bytes result \<times> MemoryStore" where
  "MemoryStore_stream rt k st =
     (if prototype st \<noteq> None then beyond_stream rt k st
      else
        (case found st k of
           Some (Buffer buf) \<Rightarrow> (Inr buf, st)
         | Some (Inherited n) \<Rightarrow> (piped rt n, st)
         | _ \<Rightarrow> (Inl (does_not_exist k), st)))"

definition MemoryStore_move ::
  "runtime \<Rightarrow> key \<Rightarrow> key \<Rightarrow> MemoryStore \<Rightarrow> outcome \<times> MemoryStore" where
  "MemoryStore_move rt source dest st =
     (if prototype st \<noteq> None then beyond_move rt source dest st
      else
        (case found st source of
           None \<Rightarrow> (Rejected (does_not_exist source), st)
         | Some NoContents \<Rightarrow> (Rejected (does_not_exist source), st)
         | Some buf \<Rightarrow>
             (Resolved Undefined, assign (st\<lparr>data := (data st)(source := None)\<rparr>) dest buf)))"

definition MemoryStore_exists :: "runtime \<Rightarrow> key \<Rightarrow> MemoryStore \<Rightarrow> val result \<times> MemoryStore" where
  "MemoryStore_exists rt k st =
     (if prototype st \<noteq> None then beyond_exists rt k st
      else (Inr (Bool (present (found st k))), st))"

definition MemoryStore_unlink :: "key \<Rightarrow> MemoryStore \<Rightarrow> val result \<times> MemoryStore" where
  "MemoryStore_unlink k st = (Inr Undefined, st\<lparr>data := (data st)(k := None)\<rparr>)"

section \<open>The store interface\<close>

text \<open>
  A store object is its state together with the five methods every store must have and
  whatever further enumerable methods it offers (\<open>methods\<close>, in enumeration order). A
  method takes the state and returns its outcome and the state it leaves. Apart from
  \<open>move\<close>, stores report failure through the promise they return, as MemoryStore and
  DirectoryStore do. \<open>stream\<close> yields the bytes it pipes into the destination.
\<close>

type_synonym 's capability = "val list \<Rightarrow> 's \<Rightarrow> val result \<times> 's"

record 's Store =
  ensure :: "key \<Rightarrow> source \<Rightarrow> 's \<Rightarrow> val result \<times> 's"
  stream :: "key \<Rightarrow> 's \<Rightarrow> bytes result \<times> 's"
  move :: "key \<Rightarrow> key \<Rightarrow> 's \<Rightarrow> outcome \<times> 's"
  exists :: "key \<Rightarrow> 's \<Rightarrow> val result \<times> 's"
  unlink :: "key \<Rightarrow> 's \<Rightarrow> val result \<times> 's"
  methods :: "(string \<times> 's capability) list"

definition MemoryStore_in :: "runtime \<Rightarrow> MemoryStore Store" where
  \<comment> \<open>a MemoryStore as a store object\<close>
  "MemoryStore_in rt =
     \<lparr>ensure = MemoryStore_ensure rt, stream = MemoryStore_stream rt, move = MemoryStore_move rt,
      exists = MemoryStore_exists rt, unlink = MemoryStore_unlink, methods = []\<rparr>"

section \<open>The LRU tracker (package lru-cache, as CacheStore configures it)\<close>

text \<open>
  Modelled from the spec: the tracker is the package lru-cache, a dependency that is not
  among the sources. The spec describes a tracker keyed by entry size, with the byte budget
  as its capacity, ordered by recency of insertion and access, that evicts least recently
  used entries one at a time while the tracked size is over budget, and calls back on each
  eviction. The definitions follow that description and take what it leaves open from the
  package itself: a maximum that is not positive means no limit, an entry larger than the
  maximum is not stored, a size that is \<open>undefined\<close> turns the running length into
  \<open>NaN\<close>, and \<open>NaN\<close> is not greater than anything.

  CacheStore calls \<open>LRU({max, length: size => size, noDisposeOnSet: true, dispose})\<close>:
  the 4.1 interface of lru-cache. An entry's length is its value, so an entry is a key with
  its value; a value is a number or \<open>undefined\<close> (\<open>None\<close>). The list is ordered from the
  most recently used entry to the least recently used one. \<open>lru_max\<close> is a number or
  \<open>Infinity\<close> (\<open>None\<close>); \<open>lru_length\<close> is a number or \<open>NaN\<close> (\<open>None\<close>). No entry
  ages (\<open>maxAge\<close> is not set).

  The \<open>dispose\<close> callback neither reads nor writes the tracker, so each operation returns
  the keys it disposed of, in order, and the caller runs the callback on them.
\<close>

type_synonym entry = "key \<times> int option"

record LRUCache =
  lru_max :: "int option"
  lru_length :: "int option"
  lru_list :: "entry list"

definition js_add :: "int option \<Rightarrow> int option \<Rightarrow> int option" where
  "js_add a b = (case (a, b) of (Some x, Some y) \<Rightarrow> Some (x + y) | _ \<Rightarrow> None)"

definition js_sub :: "int option \<Rightarrow> int option \<Rightarrow> int option" where
  "js_sub a b = (case (a, b) of (Some x, Some y) \<Rightarrow> Some (x - y) | _ \<Rightarrow> None)"

definition exceeds :: "int option \<Rightarrow> int option \<Rightarrow> bool" where
  \<comment> \<open>\<open>x > max\<close>: false when \<open>x\<close> is \<open>undefined\<close> or \<open>NaN\<close>, and when \<open>max\<close> is \<open>Infinity\<close>\<close>
  "exceeds x mx = (case (x, mx) of (Some a, Some b) \<Rightarrow> a > b | _ \<Rightarrow> False)"

definition LRU :: "int \<Rightarrow> LRUCache" where
  \<comment> \<open>\<open>if (!max || !(typeof max === 'number') || max <= 0) this[MAX] = Infinity\<close>\<close>
  "LRU mx = \<lparr>lru_max = (if mx \<le> 0 then None else Some mx), lru_length = Some 0, lru_list = []\<rparr>"

fun removeNode :: "key \<Rightarrow> entry list \<Rightarrow> entry list" where
  "removeNode k [] = []"
| "removeNode k (e # es) = (if fst e = k then es else e # removeNode k es)"

fun setValue :: "key \<Rightarrow> int option \<Rightarrow> entry list \<Rightarrow> entry list" where
  "setValue k v [] = []"
| "setValue k v (e # es) = (if fst e = k then (k, v) # es else e # setValue k v es)"

definition LRU_del :: "LRUCache \<Rightarrow> key \<Rightarrow> LRUCache \<times> key list" where
  "LRU_del self k =
     (case map_of (lru_list self) k of
        None \<Rightarrow> (self, [])
      | Some len \<Rightarrow>
          (self\<lparr>lru_length := js_sub (lru_length self) len,
                lru_list := removeNode k (lru_list self)\<rparr>, [k]))"

text \<open>
  \<open>trim\<close> walks from the tail (the least recently used entry) towards the head and deletes
  while the length exceeds the maximum; \<open>trim_walk\<close> takes the list tail first.
\<close>

fun trim_walk :: "int option \<Rightarrow> int option \<Rightarrow> entry list \<Rightarrow> int option \<times> entry list \<times> key list" where
  "trim_walk mx len [] = (len, [], [])"
| "trim_walk mx len (walker # prev) =
     (if exceeds len mx then
        (case trim_walk mx (js_sub len (snd walker)) prev of
           (len', rest, disposed) \<Rightarrow> (len', rest, fst walker # disposed))
      else (len, walker # prev, []))"

definition trim :: "LRUCache \<Rightarrow> LRUCache \<times> key list" where
  "trim self =
     (case trim_walk (lru_max self) (lru_length self) (rev (lru_list self)) of
        (len, rest, disposed) \<Rightarrow> (self\<lparr>lru_length := len, lru_list := rev rest\<rparr>, disposed))"

definition LRU_get :: "LRUCache \<Rightarrow> key \<Rightarrow> int option \<times> LRUCache" where
  "LRU_get self k =
     (case map_of (lru_list self) k of
        None \<Rightarrow> (None, self)
      | Some v \<Rightarrow> (v, self\<lparr>lru_list := (k, v) # removeNode k (lru_list self)\<rparr>))"

definition LRU_set :: "LRUCache \<Rightarrow> key \<Rightarrow> int option \<Rightarrow> LRUCache \<times> key list" where
  "LRU_set self k v =
     (case map_of (lru_list self) k of
        Some old \<Rightarrow>
          if exceeds v (lru_max self) then LRU_del self k
          else trim (snd (LRU_get
                 (self\<lparr>lru_length := js_add (lru_length self) (js_sub v old),
                       lru_list := setValue k v (lru_list self)\<rparr>) k))
      | None \<Rightarrow>
          if exceeds v (lru_max self) then (self, [k])
          else trim (self\<lparr>lru_length := js_add (lru_length self) v,
                          lru_list := (k, v) # lru_list self\<rparr>))"

section \<open>CacheStore\<close>

text \<open>
  The two tiers are store objects: their methods are the parameters \<open>C\<close> (cache tier) and
  \<open>F\<close> (fallback tier), their states are fields of the CacheStore. \<open>calls\<close> records every
  method call issued on a tier, oldest first, the way the tests observe the tiers with spies.
  \<open>new_CacheStore\<close> takes the limit that the options give (100 MiB when they give none).
  In \<open>ensure\<close> both tiers consume the one source stream, and \<open>size\<close> counts the bytes
  of its \<open>data\<close> events.
\<close>

datatype tier = Cache | Fallback

datatype call = Call tier string "val list"

record ('c, 'f) CacheStore =
  cacheStore :: 'c
  fallbackStore :: 'f
  cacheLimit :: int
  moves :: "key \<rightharpoonup> key"
  lru :: LRUCache
  calls :: "call list"

definition new_CacheStore :: "'c \<Rightarrow> 'f \<Rightarrow> int \<Rightarrow> ('c, 'f) CacheStore" where
  "new_CacheStore c f limit =
     \<lparr>cacheStore = c, fallbackStore = f, cacheLimit = limit, moves = Map.empty,
      lru = LRU limit, calls = []\<rparr>"

definition on_cache ::
  "string \<Rightarrow> val list \<Rightarrow> ('c \<Rightarrow> 'a \<times> 'c) \<Rightarrow> ('c, 'f) CacheStore \<Rightarrow> 'a \<times> ('c, 'f) CacheStore" where
  "on_cache name args m this =
     (case m (cacheStore this) of
        (r, c) \<Rightarrow> (r, this\<lparr>cacheStore := c, calls := calls this @ [Call Cache name args]\<rparr>))"

definition on_fallback ::
  "string \<Rightarrow> val list \<Rightarrow> ('f \<Rightarrow> 'a \<times> 'f) \<Rightarrow> ('c, 'f) CacheStore \<Rightarrow> 'a \<times> ('c, 'f) CacheStore" where
  "on_fallback name args m this =
     (case m (fallbackStore this) of
        (r, f) \<Rightarrow> (r, this\<lparr>fallbackStore := f, calls := calls this @ [Call Fallback name args]\<rparr>))"

text \<open>
  The own properties of \<open>this.moves\<close> are the map \<open>moves\<close>. The values written to it are
  strings, so a write under \<open>__proto__\<close> that finds no own property of that name is ignored
  (\<open>record_move\<close>), and its prototype never changes.
\<close>

definition record_move :: "(key \<rightharpoonup> key) \<Rightarrow> key \<Rightarrow> key \<Rightarrow> (key \<rightharpoonup> key)" where
  \<comment> \<open>\<open>this.moves[source] = dest\<close>\<close>
  "record_move m source dest =
     (if source = ''__proto__'' \<and> m source = None then m else m(source \<mapsto> dest))"

definition moved :: "('c, 'f) CacheStore \<Rightarrow> key \<Rightarrow> bool" where
  \<comment> \<open>\<open>if (this.moves[key])\<close>: a recorded destination that is not the empty string, or,
      without a record, an inherited property\<close>
  "moved this k = (case moves this k of Some dest \<Rightarrow> dest \<noteq> [] | None \<Rightarrow> inherited k)"

definition dispose :: "'c Store \<Rightarrow> key \<Rightarrow> ('c, 'f) CacheStore \<Rightarrow> ('c, 'f) CacheStore" where
  "dispose C k this =
     (if moved this k then this\<lparr>moves := (moves this)(k := None)\<rparr>
      else snd (on_cache ''unlink'' [Str k] (unlink C k) this))"

definition lru_get :: "key \<Rightarrow> ('c, 'f) CacheStore \<Rightarrow> int option \<times> ('c, 'f) CacheStore" where
  "lru_get k this = (case LRU_get (lru this) k of (v, l) \<Rightarrow> (v, this\<lparr>lru := l\<rparr>))"

definition lru_del :: "'c Store \<Rightarrow> key \<Rightarrow> ('c, 'f) CacheStore \<Rightarrow> ('c, 'f) CacheStore" where
  "lru_del C k this =
     (case LRU_del (lru this) k of (l, disposed) \<Rightarrow> fold (dispose C) disposed (this\<lparr>lru := l\<rparr>))"

definition lru_set :: "'c Store \<Rightarrow> key \<Rightarrow> int option \<Rightarrow> ('c, 'f) CacheStore \<Rightarrow> ('c, 'f) CacheStore" where
  "lru_set C k v this =
     (case LRU_set (lru this) k v of (l, disposed) \<Rightarrow> fold (dispose C) disposed (this\<lparr>lru := l\<rparr>))"

definition CacheStore_ensure ::
  "'c Store \<Rightarrow> 'f Store \<Rightarrow> key \<Rightarrow> source \<Rightarrow> ('c, 'f) CacheStore \<Rightarrow> val result \<times> ('c, 'f) CacheStore" where
  "CacheStore_ensure C F k sourceStream this =
     (let sz = (case sourceStream of
                  Ends written \<Rightarrow> int (length written)
                | Errors delivered e \<Rightarrow> int (length delivered));
          (rf, this1) = on_fallback ''ensure'' [Str k, Readable sourceStream]
                          (ensure F k sourceStream) this;
          (rc, this2) = on_cache ''ensure'' [Str k, Readable sourceStream]
                          (ensure C k sourceStream) this1
      in case (rf, rc) of
           (Inr vf, Inr vc) \<Rightarrow> (Inr Null, lru_set C k (Some sz) this2)
         | (Inl e, _) \<Rightarrow> (Inl e, this2)
         | (_, Inl e) \<Rightarrow> (Inl e, this2))"

definition cache_hit :: "int option \<Rightarrow> bool" where
  \<comment> \<open>\<open>if (size)\<close>: neither \<open>undefined\<close> nor zero\<close>
  "cache_hit sz = (case sz of Some n \<Rightarrow> n \<noteq> 0 | None \<Rightarrow> False)"

text \<open>
  On a miss the fallback tier streams into a pass-through that feeds both the destination
  and the cache tier's \<open>ensure\<close>. When the fallback tier's \<open>stream\<close> rejects, the
  pass-through never ends: the cache tier's \<open>ensure\<close> has been called, but its write never
  completes.
\<close>

definition CacheStore_stream ::
  "'c Store \<Rightarrow> 'f Store \<Rightarrow> key \<Rightarrow> ('c, 'f) CacheStore \<Rightarrow> bytes result \<times> ('c, 'f) CacheStore" where
  "CacheStore_stream C F k this =
     (let (sz, this1) = lru_get k this
      in if cache_hit sz then on_cache ''stream'' [Str k] (stream C k) this1
         else
           (case on_fallback ''stream'' [Str k] (stream F k) this1 of
              (Inl e, this2) \<Rightarrow>
                (Inl e, this2\<lparr>calls := calls this2 @ [Call Cache ''ensure'' [Str k, Unfinished]]\<rparr>)
            | (Inr passed, this2) \<Rightarrow>
                (case on_cache ''ensure'' [Str k, Readable (Ends passed)]
                        (ensure C k (Ends passed)) this2 of
                   (Inl e, this3) \<Rightarrow> (Inl e, this3)
                 | (Inr vc, this3) \<Rightarrow> (Inr passed, snd (lru_get k this3)))))"

text \<open>
  When the fallback tier's \<open>move\<close> throws, the rename throws with it and nothing else is
  called. Otherwise the cache tier is asked, inside a promise, and both outcomes are joined.
\<close>

definition CacheStore_move ::
  "'c Store \<Rightarrow> 'f Store \<Rightarrow> key \<Rightarrow> key \<Rightarrow> ('c, 'f) CacheStore
     \<Rightarrow> (val \<times> val) result \<times> ('c, 'f) CacheStore" where
  "CacheStore_move C F source dest this =
     (let this0 = this\<lparr>moves := record_move (moves this) source dest\<rparr>;
          (rf, this1) = on_fallback ''move'' [Str source, Str dest] (move F source dest) this0
      in case rf of
           Threw e \<Rightarrow> (Inl e, this1)
         | _ \<Rightarrow>
           (let (re, this2) = on_cache ''exists'' [Str source] (exists C source) this1;
                (rc, this3) =
                   (case re of
                      Inl e \<Rightarrow> (Inl e, this2)
                    | Inr ex \<Rightarrow>
                        if truthy ex
                        then (case on_cache ''move'' [Str source, Str dest]
                                     (move C source dest) this2 of
                                (oc, this3) \<Rightarrow> (settle oc, this3))
                        else (Inr ex, this2))
            in case (settle rf, rc) of
                 (Inr vf, Inr vc) \<Rightarrow>
                   (let (sz, this4) = lru_get source this3;
                        this5 = lru_del C source this4
                    in (Inr (vf, vc), lru_set C dest sz this5))
               | (Inl e, _) \<Rightarrow> (Inl e, this3)
               | (_, Inl e) \<Rightarrow> (Inl e, this3)))"

definition CacheStore_exists ::
  "'f Store \<Rightarrow> key \<Rightarrow> ('c, 'f) CacheStore \<Rightarrow> val result \<times> ('c, 'f) CacheStore" where
  "CacheStore_exists F k this = on_fallback ''exists'' [Str k] (exists F k) this"

definition CacheStore_unlink ::
  "'c Store \<Rightarrow> 'f Store \<Rightarrow> key \<Rightarrow> ('c, 'f) CacheStore \<Rightarrow> val result \<times> ('c, 'f) CacheStore" where
  "CacheStore_unlink C F k this =
     (let (rf, this1) = on_fallback ''unlink'' [Str k] (unlink F k) this;
          (rc, this2) = on_cache ''unlink'' [Str k] (unlink C k) this1
      in case (rf, rc) of
           (Inr ret, Inr vc) \<Rightarrow> (Inr ret, this2)
         | (Inl e, _) \<Rightarrow> (Inl e, this2)
         | (_, Inl e) \<Rightarrow> (Inl e, this2))"

section \<open>CacheStore: proxied methods\<close>

text \<open>
  The constructor walks the enumerable function-valued properties of the cache tier and
  then those of the fallback tier, and installs a proxy under every name for which
  \<open>this[name]\<close> is still falsy. \<open>defined_by_CacheStore\<close> lists the names that are truthy on a
  CacheStore before the walk: its own fields (\<open>cacheLimit\<close> only when it is not zero), the
  methods of its prototype, and what every object inherits.
\<close>

definition defined_by_CacheStore :: "int \<Rightarrow> string \<Rightarrow> bool" where
  "defined_by_CacheStore limit name =
     (name \<in> set [''log'', ''cacheStore'', ''fallbackStore'', ''moves'', ''lru'',
                   ''ensure'', ''stream'', ''move'', ''exists'', ''unlink'',
                   ''getCacheStatString'', ''constructor'', ''toString'', ''toLocaleString'',
                   ''valueOf'', ''hasOwnProperty'', ''isPrototypeOf'', ''propertyIsEnumerable'',
                   ''__proto__'', ''__defineGetter__'', ''__defineSetter__'',
                   ''__lookupGetter__'', ''__lookupSetter__'']
      \<or> (name = ''cacheLimit'' \<and> limit \<noteq> 0))"

datatype proxy = ViaCache | ViaFallback

definition install :: "int \<Rightarrow> proxy \<Rightarrow> string \<Rightarrow> (string \<times> proxy) list \<Rightarrow> (string \<times> proxy) list" where
  "install limit p name installed =
     (if defined_by_CacheStore limit name \<or> map_of installed name \<noteq> None then installed
      else installed @ [(name, p)])"

definition proxies :: "'c Store \<Rightarrow> 'f Store \<Rightarrow> int \<Rightarrow> (string \<times> proxy) list" where
  "proxies C F limit =
     fold (install limit ViaFallback) (map fst (methods F))
       (fold (install limit ViaCache) (map fst (methods C)) [])"

definition not_a_function :: "string \<Rightarrow> error" where
  "not_a_function name = Error (''cacheStore.'' @ name @ '' is not a function'')"

text \<open>
  A proxy installed in the walk over the cache tier calls the cache tier's method and, once
  that has succeeded, the fallback tier's method of the same name if there is one
  (\<open>thenSync\<close>). A proxy installed in the walk over the fallback tier is installed only under
  a name that the cache tier does not offer, so its attempt to call the cache tier first
  never finds a function, and it calls the fallback tier's method.
\<close>

definition CacheStore_invoke ::
  "'c Store \<Rightarrow> 'f Store \<Rightarrow> string \<Rightarrow> val list \<Rightarrow> ('c, 'f) CacheStore
     \<Rightarrow> val result \<times> ('c, 'f) CacheStore" where
  "CacheStore_invoke C F name args this =
     (case map_of (proxies C F (cacheLimit this)) name of
        None \<Rightarrow> (Inl (not_a_function name), this)
      | Some ViaCache \<Rightarrow>
          (case map_of (methods C) name of
             None \<Rightarrow> (Inl (not_a_function name), this)
           | Some mc \<Rightarrow>
               (case on_cache name args (mc args) this of
                  (Inl e, this1) \<Rightarrow> (Inl e, this1)
                | (Inr ret, this1) \<Rightarrow>
                    (case map_of (methods F) name of
                       Some mf \<Rightarrow> on_fallback name args (mf args) this1
                     | None \<Rightarrow> (Inr ret, this1))))
      | Some ViaFallback \<Rightarrow>
          (case map_of (methods F) name of
             None \<Rightarrow> (Inl (not_a_function name), this)
           | Some mf \<Rightarrow> on_fallback name args (mf args) this))"

section \<open>Sequences of CacheStore operations\<close>

datatype operation = Ensure key source | Stream key | Move key key | Exists key | Unlink key

fun perform :: "'c Store \<Rightarrow> 'f Store \<Rightarrow> operation \<Rightarrow> ('c, 'f) CacheStore \<Rightarrow> ('c, 'f) CacheStore" where
  "perform C F (Ensure k sourceStream) this = snd (CacheStore_ensure C F k sourceStream this)"
| "perform C F (Stream k) this = snd (CacheStore_stream C F k this)"
| "perform C F (Move source dest) this = snd (CacheStore_move C F source dest this)"
| "perform C F (Exists k) this = snd (CacheStore_exists F k this)"
| "perform C F (Unlink k) this = snd (CacheStore_unlink C F k this)"

fun run :: "'c Store \<Rightarrow> 'f Store \<Rightarrow> operation list \<Rightarrow> ('c, 'f) CacheStore \<Rightarrow> ('c, 'f) CacheStore" where
  "run C F [] this = this"
| "run C F (op # ops) this = run C F ops (perform C F op this)"

text \<open>
  \<open>tracked k\<close> is what \<open>lru.get(k)\<close> finds: the entry's value (possibly \<open>undefined\<close>), or
  nothing. \<open>renames_tracked\<close> says that every rename in a sequence is called with a source
  key that the tracker holds at that moment.
\<close>

definition tracked :: "('c, 'f) CacheStore \<Rightarrow> key \<Rightarrow> int option option" where
  "tracked this k = map_of (lru_list (lru this)) k"

fun tracked_source :: "operation \<Rightarrow> ('c, 'f) CacheStore \<Rightarrow> bool" where
  "tracked_source (Move source dest) this = (tracked this source \<noteq> None)"
| "tracked_source other this = True"

fun renames_tracked :: "'c Store \<Rightarrow> 'f Store \<Rightarrow> operation list \<Rightarrow> ('c, 'f) CacheStore \<Rightarrow> bool" where
  "renames_tracked C F [] this = True"
| "renames_tracked C F (op # ops) this =
     (tracked_source op this \<and> renames_tracked C F ops (perform C F op this))"

section \<open>The tracker's bookkeeping\<close>

text \<open>
  \<open>tracked_bytes\<close> adds up the sizes of the tracked entries, an \<open>undefined\<close> size
  counting as nothing. \<open>consistent\<close> is the state the tracker keeps between operations: no
  key has two entries, no entry exceeds the maximum or is negative, and unless the running
  length has become \<open>NaN\<close>, every size is a number, the running length is their sum and
  does not exceed the maximum.
\<close>

definition counted :: "entry \<Rightarrow> int" where
  "counted e = (case snd e of Some n \<Rightarrow> n | None \<Rightarrow> 0)"

definition tracked_bytes :: "LRUCache \<Rightarrow> int" where
  "tracked_bytes self = sum_list (map counted (lru_list self))"

definition entry_ok :: "int option \<Rightarrow> entry \<Rightarrow> bool" where
  "entry_ok mx e = (\<not> exceeds (snd e) mx \<and> 0 \<le> counted e)"

definition consistent :: "LRUCache \<Rightarrow> bool" where
  "consistent self =
     (distinct (map fst (lru_list self)) \<and>
      list_all (entry_ok (lru_max self)) (lru_list self) \<and>
      \<not> exceeds (Some 0) (lru_max self) \<and>
      (lru_length self \<noteq> None \<longrightarrow>
         list_all (\<lambda>e. snd e \<noteq> None) (lru_list self) \<and>
         lru_length self = Some (tracked_bytes self) \<and>
         \<not> exceeds (lru_length self) (lru_max self)))"

definition move_transfer :: "LRUCache \<Rightarrow> key \<Rightarrow> key \<Rightarrow> LRUCache" where
  \<comment> \<open>the tracker after \<open>size = lru.get(source); lru.del(source); lru.set(dest, size)\<close>\<close>
  "move_transfer self source dest =
     fst (LRU_set (fst (LRU_del (snd (LRU_get self source)) source)) dest
            (fst (LRU_get self source)))"

section \<open>The content-addressed facade\<close>

text \<open>
  Modelled from the spec: the facade (\<open>index.js\<close>, required by the tests as
  \<open>../index.js\<close>) is not among the sources. A BlobInfo is \<open>{key, hash?, size?, meta}\<close>;
  the facade is configured with a store, a digest and the key derivation, a pure function
  of \<open>{hash?, meta}\<close> that is called without a hash for the temporary key and with the hash
  for the final key. \<open>preparePut\<close> writes the source under the temporary key while hashing
  it and fails with the source's own error when the source fails; \<open>finalizePut\<close> renames
  the temporary key to the final key; \<open>readFile\<close> reads the key of a BlobInfo.
\<close>

record 'm BlobInfo =
  blob_key :: key
  blob_hash :: "string option"
  blob_size :: "nat option"
  blob_meta :: 'm

record ('s, 'm) cafs =
  store :: "'s Store"
  hashAlgorithm :: "bytes \<Rightarrow> string"
  keyDerivation :: "string option \<Rightarrow> 'm \<Rightarrow> key"

definition preparePut ::
  "('s, 'm) cafs \<Rightarrow> source \<Rightarrow> 'm \<Rightarrow> 's \<Rightarrow> 'm BlobInfo result \<times> 's" where
  \<comment> \<open>Modelled from the spec: \<open>preparePut\<close> of the facade, whose source file is missing\<close>
  "preparePut cfg src meta st =
     (let tmp = keyDerivation cfg None meta
      in case ensure (store cfg) tmp src st of
           (written, st') \<Rightarrow>
             (case src of
                Errors delivered e \<Rightarrow> (Inl e, st')
              | Ends b \<Rightarrow>
                  (case written of
                     Inl e \<Rightarrow> (Inl e, st')
                   | Inr v \<Rightarrow>
                       (Inr \<lparr>blob_key = tmp, blob_hash = Some (hashAlgorithm cfg b),
                             blob_size = Some (length b), blob_meta = meta\<rparr>, st'))))"

definition finalizePut ::
  "('s, 'm) cafs \<Rightarrow> 'm BlobInfo \<Rightarrow> 's \<Rightarrow> 'm BlobInfo result \<times> 's" where
  \<comment> \<open>Modelled from the spec: \<open>finalizePut\<close> of the facade, whose source file is missing\<close>
  "finalizePut cfg info st =
     (let final = keyDerivation cfg (blob_hash info) (blob_meta info)
      in case move (store cfg) (blob_key info) final st of
           (renamed, st') \<Rightarrow>
             (case settle renamed of
                Inl e \<Rightarrow> (Inl e, st')
              | Inr v \<Rightarrow> (Inr (info\<lparr>blob_key := final\<rparr>), st')))"

definition put :: "('s, 'm) cafs \<Rightarrow> source \<Rightarrow> 'm \<Rightarrow> 's \<Rightarrow> 'm BlobInfo result \<times> 's" where
  \<comment> \<open>Modelled from the spec: \<open>put\<close> of the facade, \<open>preparePut\<close> followed by \<open>finalizePut\<close>\<close>
  "put cfg src meta st =
     (case preparePut cfg src meta st of
        (Inl e, st') \<Rightarrow> (Inl e, st')
      | (Inr info, st') \<Rightarrow> finalizePut cfg info st')"

definition readFile :: "('s, 'm) cafs \<Rightarrow> 'm BlobInfo \<Rightarrow> 's \<Rightarrow> bytes result \<times> 's" where
  \<comment> \<open>Modelled from the spec: \<open>readFile\<close> of the facade, whose source file is missing\<close>
  "readFile cfg info st = stream (store cfg) (blob_key info) st"

section \<open>Example stores\<close>

definition blob :: "nat \<Rightarrow> source" where
  "blob n = Ends (replicate n 0)"

definition empty_MemoryStore :: MemoryStore where
  "empty_MemoryStore = \<lparr>data = Map.empty, prototype = None\<rparr>"

text \<open>
  The examples never read an inherited value and never replace a prototype, so nothing in
  them depends on the runtime they are given.
\<close>

definition example_runtime :: runtime where
  "example_runtime =
     \<lparr>piped = (\<lambda>k. Inr []),
      beyond_ensure = (\<lambda>k sourceStream st. (Inr Undefined, st)),
      beyond_stream = (\<lambda>k st. (Inr [], st)),
      beyond_move = (\<lambda>source dest st. (Resolved Undefined, st)),
      beyond_exists = (\<lambda>k st. (Inr (Bool False), st))\<rparr>"

definition MemoryStore_object :: "MemoryStore Store" where
  "MemoryStore_object = MemoryStore_in example_runtime"

definition memory_CacheStore :: "int \<Rightarrow> (MemoryStore, MemoryStore) CacheStore" where
  \<comment> \<open>a CacheStore over two empty MemoryStores\<close>
  "memory_CacheStore limit = new_CacheStore empty_MemoryStore empty_MemoryStore limit"

definition MemoryStore_answering :: "val \<Rightarrow> MemoryStore Store" where
  \<comment> \<open>a MemoryStore whose \<open>unlink\<close> and \<open>exists\<close> are stubbed to answer \<open>v\<close>\<close>
  "MemoryStore_answering v =
     MemoryStore_object\<lparr>exists := \<lambda>k st. (Inr v, st), unlink := \<lambda>k st. (Inr v, snd (MemoryStore_unlink k st))\<rparr>"

definition MemoryStore_offering :: "string \<Rightarrow> val \<Rightarrow> MemoryStore Store" where
  \<comment> \<open>a MemoryStore with one more method, which answers \<open>v\<close>\<close>
  "MemoryStore_offering name v = MemoryStore_object\<lparr>methods := [(name, \<lambda>args st. (Inr v, st))]\<rparr>"

definition MemoryStore_rejecting :: "string \<Rightarrow> error \<Rightarrow> MemoryStore Store" where
  \<comment> \<open>a MemoryStore with one more method, which fails with \<open>e\<close>\<close>
  "MemoryStore_rejecting name e = MemoryStore_object\<lparr>methods := [(name, \<lambda>args st. (Inl e, st))]\<rparr>"


definition example_cafs :: "(MemoryStore, string) cafs" where
  "example_cafs =
     \<lparr>store = MemoryStore_object,
      hashAlgorithm = (\<lambda>b. map (\<lambda>w. if bit w 0 then CHR ''1'' else CHR ''0'') b),
      keyDerivation = (\<lambda>h ext. case h of None \<Rightarrow> ''tmp/1'' @ ext | Some d \<Rightarrow> d @ ext)\<rparr>"

section \<open>MemoryStore: unlink\<close>

text \<open>
  C10. Deleting a key that the store does not hold succeeds (nothing is raised), and
  deleting any key, held or not, leaves what is stored under every other key as it was.
\<close>

theorem MemoryStore_unlink_frame:
  "(data st k = None \<longrightarrow> fst (MemoryStore_unlink k st) = Inr Undefined) \<and>
   (k' \<noteq> k \<longrightarrow> data (snd (MemoryStore_unlink k st)) k' = data st k')"
  by (simp add: MemoryStore_unlink_def)

theorem MemoryStore_unlink_frame_witness:
  "data \<lparr>data = [''b'' \<mapsto> Buffer [7]], prototype = None\<rparr> ''a'' = None \<and>
   fst (MemoryStore_unlink ''a'' \<lparr>data = [''b'' \<mapsto> Buffer [7]], prototype = None\<rparr>)
     = Inr Undefined \<and>
   ''b'' \<noteq> ''a'' \<and>
   data (snd (MemoryStore_unlink ''a'' \<lparr>data = [''b'' \<mapsto> Buffer [7]], prototype = None\<rparr>)) ''b''
     = Some (Buffer [7])"
  using MemoryStore_unlink_frame
          [of "\<lparr>data = [''b'' \<mapsto> Buffer [7]], prototype = None\<rparr>" "''a''" "''b''"]
  by simp

section \<open>MemoryStore: move\<close>

text \<open>
  C7, as stated, promises that the source key is absent after every successful rename.
  Renaming a key onto itself succeeds and the key is still there.
\<close>

theorem MemoryStore_move_same_key_counterexample:
  "fst (MemoryStore_move example_runtime ''a'' ''a''
          \<lparr>data = [''a'' \<mapsto> Buffer [1]], prototype = None\<rparr>) = Resolved Undefined \<and>
   fst (MemoryStore_exists example_runtime ''a''
          (snd (MemoryStore_move example_runtime ''a'' ''a''
                  \<lparr>data = [''a'' \<mapsto> Buffer [1]], prototype = None\<rparr>))) = Inr (Bool True) \<and>
   data (snd (MemoryStore_move example_runtime ''a'' ''a''
                \<lparr>data = [''a'' \<mapsto> Buffer [1]], prototype = None\<rparr>)) ''a''
     = Some (Buffer [1])"
  by (simp add: MemoryStore_move_def MemoryStore_exists_def found_def assign_def)

text \<open>
  C7, amended. Take a store whose data object has the prototype it was created with, a
  source key that is not the name of a property every object inherits, and a destination
  key other than \<open>__proto__\<close>. A rename fails through its promise, leaving the store as it
  was, when the store does not hold the source key (\<open>exists\<close> answers false). When it holds
  the source key the rename succeeds; afterwards the destination holds, and reads back,
  exactly what the source held (whatever the destination held before), the source key is
  absent (\<open>exists\<close> answers false) unless it is the destination itself, and no other key
  is affected.
\<close>

theorem MemoryStore_move_spec:
  assumes "prototype st = None" and "\<not> inherited source" and "dest \<noteq> ''__proto__''"
  shows
  "(fst (MemoryStore_exists rt source st) = Inr (Bool False) \<longrightarrow>
      MemoryStore_move rt source dest st = (Rejected (does_not_exist source), st)) \<and>
   (fst (MemoryStore_exists rt source st) = Inr (Bool True) \<longrightarrow>
      fst (MemoryStore_move rt source dest st) = Resolved Undefined \<and>
      data (snd (MemoryStore_move rt source dest st)) dest = data st source \<and>
      fst (MemoryStore_stream rt dest (snd (MemoryStore_move rt source dest st)))
        = fst (MemoryStore_stream rt source st) \<and>
      (source \<noteq> dest \<longrightarrow>
         data (snd (MemoryStore_move rt source dest st)) source = None \<and>
         fst (MemoryStore_exists rt source (snd (MemoryStore_move rt source dest st)))
           = Inr (Bool False)) \<and>
      (k \<noteq> source \<and> k \<noteq> dest \<longrightarrow>
         data (snd (MemoryStore_move rt source dest st)) k = data st k) \<and>
      prototype (snd (MemoryStore_move rt source dest st)) = None)"
  using assms
  by (auto simp: MemoryStore_move_def MemoryStore_exists_def MemoryStore_stream_def
                 found_def assign_def
           split: option.splits contents.splits)

theorem MemoryStore_move_spec_witness:
  "prototype \<lparr>data = [''a'' \<mapsto> Buffer [1], ''b'' \<mapsto> Buffer [2], ''c'' \<mapsto> Buffer [3]],
              prototype = None\<rparr> = None \<and>
   \<not> inherited ''a'' \<and> ''b'' \<noteq> ''__proto__'' \<and>
   fst (MemoryStore_exists example_runtime ''a''
         \<lparr>data = [''a'' \<mapsto> Buffer [1], ''b'' \<mapsto> Buffer [2], ''c'' \<mapsto> Buffer [3]],
          prototype = None\<rparr>)
     = Inr (Bool True) \<and>
   fst (MemoryStore_move example_runtime ''a'' ''b''
         \<lparr>data = [''a'' \<mapsto> Buffer [1], ''b'' \<mapsto> Buffer [2], ''c'' \<mapsto> Buffer [3]],
          prototype = None\<rparr>)
     = Resolved Undefined \<and>
   fst (MemoryStore_stream example_runtime ''b'' (snd (MemoryStore_move example_runtime ''a'' ''b''
         \<lparr>data = [''a'' \<mapsto> Buffer [1], ''b'' \<mapsto> Buffer [2], ''c'' \<mapsto> Buffer [3]],
          prototype = None\<rparr>)))
     = Inr [1] \<and>
   fst (MemoryStore_exists example_runtime ''a'' (snd (MemoryStore_move example_runtime ''a'' ''b''
         \<lparr>data = [''a'' \<mapsto> Buffer [1], ''b'' \<mapsto> Buffer [2], ''c'' \<mapsto> Buffer [3]],
          prototype = None\<rparr>)))
     = Inr (Bool False) \<and>
   data (snd (MemoryStore_move example_runtime ''a'' ''b''
         \<lparr>data = [''a'' \<mapsto> Buffer [1], ''b'' \<mapsto> Buffer [2], ''c'' \<mapsto> Buffer [3]],
          prototype = None\<rparr>)) ''c''
     = Some (Buffer [3]) \<and>
   fst (MemoryStore_exists example_runtime ''a'' \<lparr>data = [''b'' \<mapsto> Buffer [2]], prototype = None\<rparr>)
     = Inr (Bool False) \<and>
   MemoryStore_move example_runtime ''a'' ''b'' \<lparr>data = [''b'' \<mapsto> Buffer [2]], prototype = None\<rparr>
     = (Rejected (does_not_exist ''a''), \<lparr>data = [''b'' \<mapsto> Buffer [2]], prototype = None\<rparr>)"
  using MemoryStore_move_spec
          [of "\<lparr>data = [''a'' \<mapsto> Buffer [1], ''b'' \<mapsto> Buffer [2], ''c'' \<mapsto> Buffer [3]],
               prototype = None\<rparr>" "''a''" "''b''" example_runtime "''c''"]
        MemoryStore_move_spec
          [of "\<lparr>data = [''b'' \<mapsto> Buffer [2]], prototype = None\<rparr>" "''a''" "''b''"
              example_runtime "''c''"]
  by (simp add: MemoryStore_exists_def MemoryStore_stream_def found_def inherited_def)

text \<open>
  Under the name of an inherited property a store that was never written to finds a
  function: \<open>exists\<close> answers true, and a rename succeeds, leaving the function under the
  destination and the source as present as before.
\<close>

lemma MemoryStore_move_inherited:
  assumes "prototype st = None" and "inherited source" and "data st source = None"
    and "dest \<noteq> ''__proto__''"
  shows "fst (MemoryStore_exists rt source st) = Inr (Bool True) \<and>
         fst (MemoryStore_move rt source dest st) = Resolved Undefined \<and>
         data (snd (MemoryStore_move rt source dest st)) dest = Some (Inherited source) \<and>
         fst (MemoryStore_exists rt source (snd (MemoryStore_move rt source dest st)))
           = Inr (Bool True)"
  using assms
  by (auto simp: MemoryStore_move_def MemoryStore_exists_def found_def assign_def)

section \<open>The tracker keeps its books\<close>

text \<open>
  \<open>get\<close>, \<open>del\<close>, \<open>set\<close> and \<open>trim\<close> keep a consistent tracker consistent, whatever
  they are given; a running length that is a number stays a number unless \<open>set\<close> is given
  an \<open>undefined\<close> size.
\<close>

lemma removeNode_subset: "set (removeNode k xs) \<subseteq> set xs"
  by (induction xs) auto

lemma removeNode_keys:
  "distinct (map fst xs) \<Longrightarrow>
   distinct (map fst (removeNode k xs)) \<and> map_of (removeNode k xs) k = None \<and>
   (k' \<noteq> k \<longrightarrow> map_of (removeNode k xs) k' = map_of xs k')"
proof (induction xs)
  case Nil
  then show ?case by simp
next
  case (Cons e es)
  have "fst e \<notin> fst ` set (removeNode k es)"
    using Cons.prems removeNode_subset [of k es] by auto
  then show ?case using Cons by (auto simp: map_of_eq_None_iff)
qed

lemma removeNode_sum:
  "map_of xs k = Some v \<Longrightarrow> sum_list (map counted (removeNode k xs)) = sum_list (map counted xs) - counted (k, v)"
  by (induction xs) (auto simp: counted_def)

lemma map_of_defined:
  "list_all (\<lambda>e. snd e \<noteq> None) xs \<Longrightarrow> map_of xs k = Some v \<Longrightarrow> v \<noteq> None"
  by (induction xs) (auto split: if_splits)

lemma map_of_entry_ok:
  "list_all (entry_ok mx) xs \<Longrightarrow> map_of xs k = Some v \<Longrightarrow> entry_ok mx (k, v)"
  by (induction xs) (auto split: if_splits)

lemma list_all_subset: "list_all P xs \<Longrightarrow> set ys \<subseteq> set xs \<Longrightarrow> list_all P ys"
  by (auto simp: list_all_iff)

lemma setValue_removeNode: "removeNode k (setValue k v xs) = removeNode k xs"
  by (induction xs) auto

lemma setValue_map_of: "map_of xs k = Some old \<Longrightarrow> map_of (setValue k v xs) k = Some v"
  by (induction xs) (auto split: if_splits)

lemma trim_walk_NaN: "trim_walk mx None xs = (None, xs, [])"
  by (cases xs) (simp_all add: exceeds_def)

lemma trim_walk_sum:
  "list_all (\<lambda>e. snd e \<noteq> None) xs \<Longrightarrow>
   trim_walk mx (Some (sum_list (map counted xs))) xs = (len, rest, disposed) \<Longrightarrow>
   len = Some (sum_list (map counted rest)) \<and> (\<exists>gone. xs = gone @ rest) \<and>
   (rest = [] \<or> \<not> exceeds len mx)"
proof (induction xs arbitrary: len rest disposed)
  case Nil
  then show ?case by simp
next
  case (Cons w prev)
  show ?case
  proof (cases "exceeds (Some (sum_list (map counted (w # prev)))) mx")
    case False
    with Cons.prems show ?thesis by auto
  next
    case True
    obtain n where n: "snd w = Some n" using Cons.prems(1) by auto
    have sub: "js_sub (Some (sum_list (map counted (w # prev)))) (snd w) = Some (sum_list (map counted prev))"
      by (simp add: js_sub_def n counted_def)
    obtain l r d where walk: "trim_walk mx (Some (sum_list (map counted prev))) prev = (l, r, d)"
      by (cases "trim_walk mx (Some (sum_list (map counted prev))) prev") auto
    have "len = l" "rest = r"
      using Cons.prems(2) True walk unfolding trim_walk.simps sub by auto
    moreover have "l = Some (sum_list (map counted r)) \<and> (\<exists>gone. prev = gone @ r) \<and>
        (r = [] \<or> \<not> exceeds l mx)"
      using Cons.IH [OF _ walk] Cons.prems(1) by auto
    ultimately show ?thesis by (auto intro: exI [of _ "w # gone" for gone])
  qed
qed

lemma trim_consistent_aux:
  assumes "list_all (entry_ok (lru_max self)) (lru_list self)"
    and "distinct (map fst (lru_list self))"
    and "\<not> exceeds (Some 0) (lru_max self)"
    and "lru_length self \<noteq> None \<longrightarrow>
         list_all (\<lambda>e. snd e \<noteq> None) (lru_list self) \<and> lru_length self = Some (tracked_bytes self)"
  shows "consistent (fst (trim self)) \<and> lru_max (fst (trim self)) = lru_max self \<and>
         set (lru_list (fst (trim self))) \<subseteq> set (lru_list self) \<and>
         (lru_length self \<noteq> None \<longrightarrow> lru_length (fst (trim self)) \<noteq> None) \<and>
         (\<not> exceeds (lru_length self) (lru_max self) \<longrightarrow> fst (trim self) = self)"
proof (cases "lru_length self")
  case None
  then show ?thesis using assms
    by (simp add: trim_def trim_walk_NaN consistent_def)
next
  case (Some n)
  let ?xs = "rev (lru_list self)"
  have def: "list_all (\<lambda>e. snd e \<noteq> None) ?xs" using assms(4) Some by simp
  have len: "lru_length self = Some (sum_list (map counted ?xs))"
    using assms(4) Some by (simp add: tracked_bytes_def rev_map [symmetric])
  obtain l r d where walk: "trim_walk (lru_max self) (lru_length self) ?xs = (l, r, d)"
    by (cases "trim_walk (lru_max self) (lru_length self) ?xs") auto
  have props: "l = Some (sum_list (map counted r)) \<and> (\<exists>gone. ?xs = gone @ r) \<and>
      (r = [] \<or> \<not> exceeds l (lru_max self))"
    using trim_walk_sum [OF def] walk len by simp
  then obtain gone where gone: "?xs = gone @ r" by blast
  then have split: "lru_list self = rev r @ rev gone" by (simp add: rev_swap)
  have dist: "distinct (map fst (rev r))" using assms(2) unfolding split by simp
  have t: "fst (trim self) = self\<lparr>lru_length := l, lru_list := rev r\<rparr>"
    by (simp add: trim_def walk)
  have sub: "set (rev r) \<subseteq> set (lru_list self)" unfolding split by auto
  have nox: "\<not> exceeds l (lru_max self)"
  proof (cases "r = []")
    case True
    then show ?thesis using props assms(3) by simp
  next
    case False
    then show ?thesis using props by auto
  qed
  have same: "\<not> exceeds (lru_length self) (lru_max self) \<longrightarrow> fst (trim self) = self"
  proof
    assume "\<not> exceeds (lru_length self) (lru_max self)"
    then have "trim_walk (lru_max self) (lru_length self) ?xs = (lru_length self, ?xs, [])"
      by (cases ?xs) simp_all
    then show "fst (trim self) = self" by (simp add: trim_def)
  qed
  show ?thesis
    unfolding t consistent_def
    using props assms(1,3) def sub nox same t dist
    by (auto simp: tracked_bytes_def rev_map [symmetric] list_all_iff)
qed


lemma LRU_get_consistent:
  assumes "consistent self"
  shows "consistent (snd (LRU_get self k)) \<and> lru_max (snd (LRU_get self k)) = lru_max self \<and>
         lru_length (snd (LRU_get self k)) = lru_length self \<and>
         tracked_bytes (snd (LRU_get self k)) = tracked_bytes self \<and>
         entry_ok (lru_max self) (k, fst (LRU_get self k)) \<and>
         (lru_length self \<noteq> None \<and> map_of (lru_list self) k \<noteq> None \<longrightarrow> fst (LRU_get self k) \<noteq> None)"
proof (cases "map_of (lru_list self) k")
  case None
  then show ?thesis using assms by (simp add: LRU_get_def entry_ok_def exceeds_def counted_def)
next
  case (Some v)
  have sum: "sum_list (map counted (removeNode k (lru_list self))) = tracked_bytes self - counted (k, v)"
    using removeNode_sum [OF Some] by (simp add: tracked_bytes_def)
  have ok: "entry_ok (lru_max self) (k, v)"
    using assms Some by (auto simp: consistent_def intro: map_of_entry_ok)
  have rest: "list_all (entry_ok (lru_max self)) (removeNode k (lru_list self))"
    using assms list_all_subset [OF _ removeNode_subset] by (simp add: consistent_def)
  have def: "lru_length self \<noteq> None \<longrightarrow> v \<noteq> None \<and> list_all (\<lambda>e. snd e \<noteq> None) (removeNode k (lru_list self))"
  proof
    assume "lru_length self \<noteq> None"
    then have alldef: "list_all (\<lambda>e. snd e \<noteq> None) (lru_list self)"
      using assms by (simp add: consistent_def)
    show "v \<noteq> None \<and> list_all (\<lambda>e. snd e \<noteq> None) (removeNode k (lru_list self))"
      using map_of_defined [OF alldef Some] list_all_subset [OF alldef removeNode_subset] by simp
  qed
  have keys: "distinct (map fst (removeNode k (lru_list self)))"
    "k \<notin> fst ` set (removeNode k (lru_list self))"
    using assms removeNode_keys [of "lru_list self" k]
    by (auto simp: consistent_def map_of_eq_None_iff)
  show ?thesis
    using assms Some sum ok rest def keys
    by (auto simp: LRU_get_def consistent_def tracked_bytes_def)
qed

lemma LRU_del_consistent:
  assumes "consistent self"
  shows "consistent (fst (LRU_del self k)) \<and> lru_max (fst (LRU_del self k)) = lru_max self \<and>
         (lru_length self \<noteq> None \<longrightarrow> lru_length (fst (LRU_del self k)) \<noteq> None) \<and>
         set (lru_list (fst (LRU_del self k))) \<subseteq> set (lru_list self)"
proof (cases "map_of (lru_list self) k")
  case None
  then show ?thesis using assms by (simp add: LRU_del_def)
next
  case (Some v)
  have sum: "sum_list (map counted (removeNode k (lru_list self))) = tracked_bytes self - counted (k, v)"
    using removeNode_sum [OF Some] by (simp add: tracked_bytes_def)
  have ok: "entry_ok (lru_max self) (k, v)"
    using assms Some by (auto simp: consistent_def intro: map_of_entry_ok)
  have rest: "list_all (entry_ok (lru_max self)) (removeNode k (lru_list self))"
    using assms list_all_subset [OF _ removeNode_subset] by (simp add: consistent_def)
  have d: "fst (LRU_del self k) =
             self\<lparr>lru_length := js_sub (lru_length self) v, lru_list := removeNode k (lru_list self)\<rparr>"
    using Some by (simp add: LRU_del_def)
  have keys: "distinct (map fst (removeNode k (lru_list self)))"
    using assms removeNode_keys [of "lru_list self" k] by (simp add: consistent_def)
  show ?thesis
  proof (cases "lru_length self")
    case None
    then show ?thesis using assms rest removeNode_subset keys
      by (simp add: d consistent_def js_sub_def)
  next
    case (Some n)
    have alldef: "list_all (\<lambda>e. snd e \<noteq> None) (lru_list self)" and n: "n = tracked_bytes self"
      and within: "\<not> exceeds (Some n) (lru_max self)"
      using assms Some by (auto simp: consistent_def)
    obtain m where v: "v = Some m" using map_of_defined [OF alldef \<open>map_of (lru_list self) k = Some v\<close>] by auto
    have m: "0 \<le> m" "counted (k, v) = m" using ok v by (auto simp: entry_ok_def counted_def)
    have len: "js_sub (lru_length self) v = Some (n - m)" using Some v by (simp add: js_sub_def)
    have w: "\<not> exceeds (Some (n - m)) (lru_max self)"
      using within m by (auto simp: exceeds_def split: option.splits)
    have rdef: "list_all (\<lambda>e. snd e \<noteq> None) (removeNode k (lru_list self))"
      using alldef list_all_subset [OF _ removeNode_subset] by blast
    show ?thesis
      using assms rest removeNode_subset rdef w sum n m keys
      by (simp add: d len consistent_def tracked_bytes_def)
  qed
qed

lemma LRU_set_consistent:
  assumes "consistent self" and "0 \<le> counted (k, v)"
  shows "consistent (fst (LRU_set self k v)) \<and> lru_max (fst (LRU_set self k v)) = lru_max self \<and>
         (lru_length self \<noteq> None \<and> v \<noteq> None \<longrightarrow> lru_length (fst (LRU_set self k v)) \<noteq> None)"
proof (cases "exceeds v (lru_max self)")
  case True
  then show ?thesis using assms(1) LRU_del_consistent [OF assms(1), of k]
    by (simp add: LRU_set_def split: option.splits)
next
  case False
  have ok: "entry_ok (lru_max self) (k, v)" using False assms(2) by (simp add: entry_ok_def)
  have base: "list_all (entry_ok (lru_max self)) (lru_list self)" "\<not> exceeds (Some 0) (lru_max self)"
    "distinct (map fst (lru_list self))"
    using assms(1) by (auto simp: consistent_def)
  show ?thesis
  proof (cases "map_of (lru_list self) k")
    case None
    let ?s = "self\<lparr>lru_length := js_add (lru_length self) v, lru_list := (k, v) # lru_list self\<rparr>"
    have s: "LRU_set self k v = trim ?s" using None False by (simp add: LRU_set_def)
    have a1: "list_all (entry_ok (lru_max ?s)) (lru_list ?s)" using ok base by simp
    have a2: "distinct (map fst (lru_list ?s))"
      using base(3) None by (simp add: map_of_eq_None_iff)
    have a3: "lru_length ?s \<noteq> None \<longrightarrow>
         list_all (\<lambda>e. snd e \<noteq> None) (lru_list ?s) \<and> lru_length ?s = Some (tracked_bytes ?s)"
      using assms(1)
      by (auto simp: js_add_def consistent_def tracked_bytes_def counted_def split: option.splits)
    have num: "lru_length self \<noteq> None \<and> v \<noteq> None \<longrightarrow> lru_length ?s \<noteq> None"
      by (auto simp: js_add_def)
    show ?thesis
      using trim_consistent_aux [OF a1 a2 _ a3] base(2) num unfolding s by simp
  next
    case (Some old)
    let ?t = "self\<lparr>lru_length := js_add (lru_length self) (js_sub v old),
                    lru_list := setValue k v (lru_list self)\<rparr>"
    let ?s = "?t\<lparr>lru_list := (k, v) # removeNode k (lru_list self)\<rparr>"
    have g: "snd (LRU_get ?t k) = ?s"
      using setValue_map_of [OF Some] by (simp add: LRU_get_def setValue_removeNode)
    have "LRU_set self k v = trim (snd (LRU_get ?t k))"
      using Some False by (simp add: LRU_set_def)
    then have s: "LRU_set self k v = trim ?s" by (simp only: g)
    have rest: "list_all (entry_ok (lru_max self)) (removeNode k (lru_list self))"
      using base list_all_subset [OF _ removeNode_subset] by blast
    have a1: "list_all (entry_ok (lru_max ?s)) (lru_list ?s)" using ok rest by simp
    have a2: "distinct (map fst (lru_list ?s))"
      using removeNode_keys [OF base(3), of k] by (simp add: map_of_eq_None_iff)
    have sum: "sum_list (map counted (removeNode k (lru_list self))) = tracked_bytes self - counted (k, old)"
      using removeNode_sum [OF Some] by (simp add: tracked_bytes_def)
    have a3: "lru_length ?s \<noteq> None \<longrightarrow>
         list_all (\<lambda>e. snd e \<noteq> None) (lru_list ?s) \<and> lru_length ?s = Some (tracked_bytes ?s)"
    proof
      assume "lru_length ?s \<noteq> None"
      then obtain n a b where nab: "lru_length self = Some n" "v = Some a" "old = Some b"
        by (auto simp: js_add_def js_sub_def split: option.splits)
      have alldef: "list_all (\<lambda>e. snd e \<noteq> None) (lru_list self)" and n: "n = tracked_bytes self"
        using assms(1) nab by (auto simp: consistent_def)
      have rdef: "list_all (\<lambda>e. snd e \<noteq> None) (removeNode k (lru_list self))"
        using alldef list_all_subset [OF _ removeNode_subset] by blast
      show "list_all (\<lambda>e. snd e \<noteq> None) (lru_list ?s) \<and> lru_length ?s = Some (tracked_bytes ?s)"
        using rdef nab n sum by (simp add: js_add_def js_sub_def tracked_bytes_def counted_def)
    qed
    have num: "lru_length self \<noteq> None \<and> v \<noteq> None \<longrightarrow> lru_length ?s \<noteq> None"
    proof
      assume h: "lru_length self \<noteq> None \<and> v \<noteq> None"
      then have "list_all (\<lambda>e. snd e \<noteq> None) (lru_list self)" using assms(1) by (auto simp: consistent_def)
      then have "old \<noteq> None" by (rule map_of_defined [OF _ Some])
      then show "lru_length ?s \<noteq> None" using h by (auto simp: js_add_def js_sub_def)
    qed
    show ?thesis
      using trim_consistent_aux [OF a1 a2 _ a3] base(2) num unfolding s by simp
  qed
qed


lemma lru_on_cache [simp]: "lru (snd (on_cache name args m this)) = lru this"
  by (simp add: on_cache_def split: prod.splits)

lemma lru_on_fallback [simp]: "lru (snd (on_fallback name args m this)) = lru this"
  by (simp add: on_fallback_def split: prod.splits)

lemma lru_on_cacheD: "on_cache name args m this = (r, this') \<Longrightarrow> lru this' = lru this"
  by (auto simp: on_cache_def split: prod.splits)

lemma lru_on_fallbackD: "on_fallback name args m this = (r, this') \<Longrightarrow> lru this' = lru this"
  by (auto simp: on_fallback_def split: prod.splits)

lemma lru_dispose [simp]: "lru (dispose C k this) = lru this"
  by (simp add: dispose_def)

lemma lru_fold_dispose [simp]: "lru (fold (dispose C) ks this) = lru this"
  by (induction ks arbitrary: this) simp_all

lemma lru_lru_set [simp]: "lru (lru_set C k v this) = fst (LRU_set (lru this) k v)"
  by (simp add: lru_set_def split: prod.splits)

lemma lru_lru_del [simp]: "lru (lru_del C k this) = fst (LRU_del (lru this) k)"
  by (simp add: lru_del_def split: prod.splits)

lemma lru_lru_get [simp]:
  "lru (snd (lru_get k this)) = snd (LRU_get (lru this) k)"
  "fst (lru_get k this) = fst (LRU_get (lru this) k)"
  by (simp_all add: lru_get_def split: prod.splits)

lemma lru_CacheStore_ensure:
  "lru (snd (CacheStore_ensure C F k sourceStream this)) = lru this \<or>
   lru (snd (CacheStore_ensure C F k sourceStream this))
     = fst (LRU_set (lru this) k
         (Some (case sourceStream of
                  Ends written \<Rightarrow> int (length written)
                | Errors delivered e \<Rightarrow> int (length delivered))))"
proof -
  obtain rf this1 where f: "on_fallback ''ensure'' [Str k, Readable sourceStream] (ensure F k sourceStream) this = (rf, this1)"
    by (cases "on_fallback ''ensure'' [Str k, Readable sourceStream] (ensure F k sourceStream) this") auto
  obtain rc this2 where c: "on_cache ''ensure'' [Str k, Readable sourceStream] (ensure C k sourceStream) this1 = (rc, this2)"
    by (cases "on_cache ''ensure'' [Str k, Readable sourceStream] (ensure C k sourceStream) this1") auto
  have l1: "lru this1 = lru this" using lru_on_fallbackD [OF f] by simp
  have l2: "lru this2 = lru this" using lru_on_cacheD [OF c] l1 by simp
  show ?thesis
    by (cases rf; cases rc) (auto simp: CacheStore_ensure_def f c l2)
qed

lemma lru_CacheStore_unlink [simp]: "lru (snd (CacheStore_unlink C F k this)) = lru this"
proof -
  obtain rf this1 where f: "on_fallback ''unlink'' [Str k] (unlink F k) this = (rf, this1)"
    by (cases "on_fallback ''unlink'' [Str k] (unlink F k) this") auto
  obtain rc this2 where c: "on_cache ''unlink'' [Str k] (unlink C k) this1 = (rc, this2)"
    by (cases "on_cache ''unlink'' [Str k] (unlink C k) this1") auto
  have l1: "lru this1 = lru this" using lru_on_fallbackD [OF f] by simp
  have l2: "lru this2 = lru this" using lru_on_cacheD [OF c] l1 by simp
  show ?thesis
    by (cases rf; cases rc) (auto simp: CacheStore_unlink_def f c l2)
qed

lemma lru_CacheStore_exists [simp]: "lru (snd (CacheStore_exists F k this)) = lru this"
  by (simp add: CacheStore_exists_def)

lemma lru_CacheStore_stream:
  "lru (snd (CacheStore_stream C F k this)) = snd (LRU_get (lru this) k) \<or>
   lru (snd (CacheStore_stream C F k this)) = snd (LRU_get (snd (LRU_get (lru this) k)) k)"
proof -
  obtain sz this1 where g: "lru_get k this = (sz, this1)" by (cases "lru_get k this") auto
  have l1: "lru this1 = snd (LRU_get (lru this) k)" using lru_lru_get(1) [of k this] g by simp
  show ?thesis
  proof (cases "cache_hit sz")
    case True
    then show ?thesis by (simp add: CacheStore_stream_def g l1)
  next
    case False
    obtain rf this2 where f: "on_fallback ''stream'' [Str k] (stream F k) this1 = (rf, this2)"
      by (cases "on_fallback ''stream'' [Str k] (stream F k) this1") auto
    have l2: "lru this2 = lru this1" using lru_on_fallbackD [OF f] by simp
    show ?thesis
    proof (cases rf)
      case (Inl e)
      then show ?thesis using False by (simp add: CacheStore_stream_def g f l2 l1)
    next
      case (Inr passed)
      obtain rc this3 where c: "on_cache ''ensure'' [Str k, Readable (Ends passed)] (ensure C k (Ends passed)) this2 = (rc, this3)"
        by (cases "on_cache ''ensure'' [Str k, Readable (Ends passed)] (ensure C k (Ends passed)) this2") auto
      have l3: "lru this3 = lru this2" using lru_on_cacheD [OF c] by simp
      show ?thesis using False Inr
        by (cases rc) (simp_all add: CacheStore_stream_def g f c l3 l2 l1)
    qed
  qed
qed


lemma on_cacheD:
  "on_cache name args m this = (r, this') \<Longrightarrow>
   r = fst (m (cacheStore this)) \<and>
   this' = this\<lparr>cacheStore := snd (m (cacheStore this)), calls := calls this @ [Call Cache name args]\<rparr>"
  by (auto simp: on_cache_def split: prod.splits)

lemma on_fallbackD:
  "on_fallback name args m this = (r, this') \<Longrightarrow>
   r = fst (m (fallbackStore this)) \<and>
   this' = this\<lparr>fallbackStore := snd (m (fallbackStore this)),
                calls := calls this @ [Call Fallback name args]\<rparr>"
  by (auto simp: on_fallback_def split: prod.splits)

lemma CacheStore_move_shape:
  fixes C :: "'c Store" and F :: "'f Store" and this :: "('c, 'f) CacheStore"
  obtains (threw) e where
      "fst (move F source dest (fallbackStore this)) = Threw e"
      "CacheStore_move C F source dest this =
         (Inl e, this\<lparr>moves := record_move (moves this) source dest,
                      fallbackStore := snd (move F source dest (fallbackStore this)),
                      calls := calls this @ [Call Fallback ''move'' [Str source, Str dest]]\<rparr>)"
  | (failed) e this3 where
      "\<forall>x. fst (move F source dest (fallbackStore this)) \<noteq> Threw x"
      "CacheStore_move C F source dest this = (Inl e, this3)"
      "lru this3 = lru this"
      "moves this3 = record_move (moves this) source dest"
      "fallbackStore this3 = snd (move F source dest (fallbackStore this))"
      "calls this3
         = calls this @ [Call Fallback ''move'' [Str source, Str dest],
                         Call Cache ''exists'' [Str source]]
           @ (if (case fst (exists C source (cacheStore this)) of
                    Inr ex \<Rightarrow> truthy ex | Inl e \<Rightarrow> False)
              then [Call Cache ''move'' [Str source, Str dest]] else [])"
  | (succeeded) vf vc this3 where
      "fst (move F source dest (fallbackStore this)) = Resolved vf"
      "CacheStore_move C F source dest this =
         (Inr (vf, vc),
          lru_set C dest (fst (LRU_get (lru this) source))
            (lru_del C source (this3\<lparr>lru := snd (LRU_get (lru this) source)\<rparr>)))"
      "lru this3 = lru this"
      "moves this3 = record_move (moves this) source dest"
      "fallbackStore this3 = snd (move F source dest (fallbackStore this))"
      "calls this3
         = calls this @ [Call Fallback ''move'' [Str source, Str dest],
                         Call Cache ''exists'' [Str source]]
           @ (if (case fst (exists C source (cacheStore this)) of
                    Inr ex \<Rightarrow> truthy ex | Inl e \<Rightarrow> False)
              then [Call Cache ''move'' [Str source, Str dest]] else [])"
proof -
  let ?rec = "this\<lparr>moves := record_move (moves this) source dest\<rparr>"
  let ?mv = "Call Cache ''move'' [Str source, Str dest]"
  obtain rf this1 where f: "on_fallback ''move'' [Str source, Str dest] (move F source dest) ?rec = (rf, this1)"
    by (cases "on_fallback ''move'' [Str source, Str dest] (move F source dest) ?rec") auto
  have s1: "rf = fst (move F source dest (fallbackStore this))"
    "this1 = ?rec\<lparr>fallbackStore := snd (move F source dest (fallbackStore this)),
                calls := calls this @ [Call Fallback ''move'' [Str source, Str dest]]\<rparr>"
    using on_fallbackD [OF f] by simp_all
  show ?thesis
  proof (cases "\<exists>x. rf = Threw x")
    case True
    then obtain x where x: "rf = Threw x" ..
    have "CacheStore_move C F source dest this = (Inl x, this1)"
      unfolding CacheStore_move_def Let_def f prod.case by (simp add: x)
    then show ?thesis using threw [of x] x s1 by simp
  next
    case False
    obtain re this2 where e: "on_cache ''exists'' [Str source] (exists C source) this1 = (re, this2)"
      by (cases "on_cache ''exists'' [Str source] (exists C source) this1") auto
    obtain oc moved2 where m: "on_cache ''move'' [Str source, Str dest] (move C source dest) this2 = (oc, moved2)"
      by (cases "on_cache ''move'' [Str source, Str dest] (move C source dest) this2") auto
    let ?branch = "case re of Inl e \<Rightarrow> (Inl e, this2)
                | Inr ex \<Rightarrow> if truthy ex then (settle oc, moved2) else (Inr ex, this2)"
    obtain rc this3 where c: "?branch = (rc, this3)" by (cases ?branch) auto
    have s2: "re = fst (exists C source (cacheStore this))"
      "this2 = this1\<lparr>cacheStore := snd (exists C source (cacheStore this)),
                    calls := calls this1 @ [Call Cache ''exists'' [Str source]]\<rparr>"
      using on_cacheD [OF e] s1 by simp_all
    have s3': "calls this3
                = calls this2 @ (if (case re of Inr ex \<Rightarrow> truthy ex | Inl e \<Rightarrow> False) then [?mv] else []) \<and>
              fallbackStore this3 = fallbackStore this2 \<and> moves this3 = moves this2 \<and>
              lru this3 = lru this2"
    proof (cases re)
      case (Inl x)
      then show ?thesis using c by auto
    next
      case (Inr ex)
      show ?thesis
      proof (cases "truthy ex")
        case True
        then have "this3 = moved2" using c Inr by simp
        with on_cacheD [OF m] show ?thesis using True Inr by auto
      next
        case False
        then show ?thesis using c Inr by auto
      qed
    qed
    have base: "lru this3 = lru this"
      "moves this3 = record_move (moves this) source dest"
      "fallbackStore this3 = snd (move F source dest (fallbackStore this))"
      "calls this3
         = calls this @ [Call Fallback ''move'' [Str source, Str dest],
                         Call Cache ''exists'' [Str source]]
           @ (if (case fst (exists C source (cacheStore this)) of
                    Inr ex \<Rightarrow> truthy ex | Inl e \<Rightarrow> False)
              then [?mv] else [])"
      using s3' s2(2) s1(2) unfolding s2(1) by simp_all
    obtain sz this4 where g: "lru_get source this3 = (sz, this4)" by (cases "lru_get source this3") auto
    have s4: "sz = fst (LRU_get (lru this) source)"
      "this4 = this3\<lparr>lru := snd (LRU_get (lru this) source)\<rparr>"
      using g base(1) by (auto simp: lru_get_def split: prod.splits)
    have unfold: "CacheStore_move C F source dest this =
        (case (settle rf, rc) of
             (Inr vf, Inr vc) \<Rightarrow> (Inr (vf, vc), lru_set C dest sz (lru_del C source this4))
           | (Inl e, _) \<Rightarrow> (Inl e, this3)
           | (_, Inl e) \<Rightarrow> (Inl e, this3))"
      using False unfolding CacheStore_move_def Let_def f e m c g prod.case by (cases rf) simp_all
    have nothrow: "\<forall>x. fst (move F source dest (fallbackStore this)) \<noteq> Threw x"
      using False s1(1) by simp
    show ?thesis
    proof (cases "\<exists>vf vc. rf = Resolved vf \<and> rc = Inr vc")
      case True
      then obtain vf vc where ok: "rf = Resolved vf" "rc = Inr vc" by blast
      have "CacheStore_move C F source dest this
              = (Inr (vf, vc), lru_set C dest sz (lru_del C source this4))"
        by (simp add: unfold ok)
      then show ?thesis using succeeded [of vf vc this3] ok(1) s1(1) s4 base by simp
    next
      case no: False
      then obtain x where "CacheStore_move C F source dest this = (Inl x, this3)"
        using False by (cases rf; cases rc) (auto simp: unfold)
      then show ?thesis using failed [of x this3] nothrow base by simp
    qed
  qed
qed

lemma lru_CacheStore_move:
  "(fst (CacheStore_move C F source dest this) \<in> range Inl \<and>
      lru (snd (CacheStore_move C F source dest this)) = lru this) \<or>
   (fst (CacheStore_move C F source dest this) \<in> range Inr \<and>
      lru (snd (CacheStore_move C F source dest this)) = move_transfer (lru this) source dest)"
proof (cases rule: CacheStore_move_shape [where C = C and F = F and source = source
                      and dest = dest and this = this])
  case (threw e)
  then show ?thesis by simp
next
  case (failed e this3)
  then show ?thesis by simp
next
  case (succeeded vf vc this3)
  then show ?thesis by (simp add: move_transfer_def)
qed

lemma move_transfer_consistent:
  assumes "consistent self"
  shows "consistent (move_transfer self source dest) \<and>
         lru_max (move_transfer self source dest) = lru_max self \<and>
         (lru_length self \<noteq> None \<and> map_of (lru_list self) source \<noteq> None \<longrightarrow>
            lru_length (move_transfer self source dest) \<noteq> None)"
proof -
  let ?g = "snd (LRU_get self source)" and ?v = "fst (LRU_get self source)"
  have g: "consistent ?g" "lru_max ?g = lru_max self" "lru_length ?g = lru_length self"
    "entry_ok (lru_max self) (source, ?v)"
    "lru_length self \<noteq> None \<and> map_of (lru_list self) source \<noteq> None \<longrightarrow> ?v \<noteq> None"
    using LRU_get_consistent [OF assms, of source] by auto
  let ?d = "fst (LRU_del ?g source)"
  have d: "consistent ?d" "lru_max ?d = lru_max self"
    "lru_length self \<noteq> None \<longrightarrow> lru_length ?d \<noteq> None"
    using LRU_del_consistent [OF g(1), of source] g(2,3) by auto
  have nonneg: "0 \<le> counted (dest, ?v)" using g(4) by (simp add: entry_ok_def counted_def)
  show ?thesis
    using LRU_set_consistent [OF d(1) nonneg] d(2,3) g(5)
    by (auto simp: move_transfer_def)
qed

lemma perform_consistent:
  assumes "consistent (lru this)"
  shows "consistent (lru (perform C F op this)) \<and> lru_max (lru (perform C F op this)) = lru_max (lru this) \<and>
         (lru_length (lru this) \<noteq> None \<and> tracked_source op this \<longrightarrow>
            lru_length (lru (perform C F op this)) \<noteq> None)"
proof (cases op)
  case (Ensure k sourceStream)
  have "0 \<le> counted (k, Some (case sourceStream of
                  Ends written \<Rightarrow> int (length written)
                | Errors delivered e \<Rightarrow> int (length delivered)))"
    by (simp add: counted_def split: source.splits)
  from LRU_set_consistent [OF assms this] lru_CacheStore_ensure [of C F k sourceStream this]
  show ?thesis using assms Ensure by auto
next
  case (Stream k)
  have 1: "consistent (snd (LRU_get (lru this) k))"
    "lru_max (snd (LRU_get (lru this) k)) = lru_max (lru this)"
    "lru_length (snd (LRU_get (lru this) k)) = lru_length (lru this)"
    using LRU_get_consistent [OF assms, of k] by auto
  from LRU_get_consistent [OF 1(1), of k] 1 lru_CacheStore_stream [of C F k this]
  show ?thesis using Stream by auto
next
  case (Move source dest)
  from move_transfer_consistent [OF assms, of source dest] lru_CacheStore_move [of C F source dest this]
  show ?thesis using assms Move by (auto simp: tracked_def)
next
  case (Exists k)
  then show ?thesis using assms by simp
next
  case (Unlink k)
  then show ?thesis using assms by simp
qed

lemma run_consistent:
  "consistent (lru this) \<Longrightarrow>
   consistent (lru (run C F ops this)) \<and> lru_max (lru (run C F ops this)) = lru_max (lru this) \<and>
   (lru_length (lru this) \<noteq> None \<and> renames_tracked C F ops this \<longrightarrow>
      lru_length (lru (run C F ops this)) \<noteq> None)"
proof (induction ops arbitrary: this)
  case Nil
  then show ?case by simp
next
  case (Cons op ops)
  from perform_consistent [OF Cons.prems, of C F op] Cons.IH [of "perform C F op this"]
  show ?case by auto
qed

lemma consistent_new: "consistent (lru (new_CacheStore c f limit))"
  by (simp add: new_CacheStore_def LRU_def consistent_def tracked_bytes_def exceeds_def)



text \<open>Every tracker state that operations can reach from construction is consistent.\<close>

lemma reachable_consistent: "consistent (lru (run C F ops (new_CacheStore c f limit)))"
  using run_consistent [OF consistent_new, of C F ops c f limit] by blast

section \<open>CacheStore: the byte budget\<close>

text \<open>
  C1, as stated, bounds the tracked sizes by the budget \<open>L\<close> after every sequence of
  operations. Two sequences break the bound. With \<open>L = 0\<close> the tracker's maximum is
  \<open>Infinity\<close>, and one byte is tracked. With \<open>L = 100\<close>: a blob of 140 bytes is written
  under \<open>x\<close> (too large, so not tracked) and renamed to \<open>y\<close>; the rename registers \<open>y\<close>
  with the \<open>undefined\<close> size it read for \<open>x\<close>, the running length becomes \<open>NaN\<close>, and
  nothing is evicted any more: two blobs of 60 bytes are then both tracked.
\<close>

theorem budget_counterexample:
  "\<not> tracked_bytes (lru (run MemoryStore_object MemoryStore_object
          [Ensure ''a'' (blob 1)] (memory_CacheStore 0))) \<le> 0 \<and>
   \<not> tracked_bytes (lru (run MemoryStore_object MemoryStore_object
          [Ensure ''x'' (blob 140), Move ''x'' ''y'', Ensure ''a'' (blob 60), Ensure ''b'' (blob 60)]
          (memory_CacheStore 100))) \<le> 100"
  by code_simp

text \<open>
  C1, amended. For a budget \<open>L > 0\<close> and every sequence of operations (writes, reads with
  their read-through, renames, existence checks, deletions, each run to completion, failed
  or not) in which every rename is called with a source key that the tracker holds, every
  tracked entry has a size and the sizes add up to at most \<open>L\<close> afterwards. Every prefix
  of such a sequence is such a sequence, so the bound holds after each operation.
\<close>

theorem budget_invariant:
  assumes "0 < L" and "renames_tracked C F ops (new_CacheStore c f L)"
  shows "list_all (\<lambda>e. snd e \<noteq> None) (lru_list (lru (run C F ops (new_CacheStore c f L)))) \<and>
         tracked_bytes (lru (run C F ops (new_CacheStore c f L))) \<le> L"
proof -
  let ?l = "lru (run C F ops (new_CacheStore c f L))"
  have "lru_length (lru (new_CacheStore c f L)) \<noteq> None" "lru_max (lru (new_CacheStore c f L)) = Some L"
    using assms(1) by (simp_all add: new_CacheStore_def LRU_def)
  with run_consistent [OF consistent_new, of C F ops c f L] assms(2)
  have "consistent ?l" "lru_max ?l = Some L" "lru_length ?l \<noteq> None" by auto
  then show ?thesis by (auto simp: consistent_def exceeds_def)
qed

theorem budget_invariant_witness:
  "(0::int) < 100 \<and>
   renames_tracked MemoryStore_object MemoryStore_object
     [Ensure ''a'' (blob 40), Ensure ''b'' (blob 40), Ensure ''c'' (blob 40), Stream ''a'',
      Move ''b'' ''d''] (memory_CacheStore 100) \<and>
   list_all (\<lambda>e. snd e \<noteq> None)
     (lru_list (lru (run MemoryStore_object MemoryStore_object
        [Ensure ''a'' (blob 40), Ensure ''b'' (blob 40), Ensure ''c'' (blob 40), Stream ''a'',
         Move ''b'' ''d''] (memory_CacheStore 100)))) \<and>
   tracked_bytes (lru (run MemoryStore_object MemoryStore_object
        [Ensure ''a'' (blob 40), Ensure ''b'' (blob 40), Ensure ''c'' (blob 40), Stream ''a'',
         Move ''b'' ''d''] (memory_CacheStore 100))) \<le> 100"
proof -
  have pos: "(0::int) < 100" by simp
  have tracked: "renames_tracked MemoryStore_object MemoryStore_object
     [Ensure ''a'' (blob 40), Ensure ''b'' (blob 40), Ensure ''c'' (blob 40), Stream ''a'',
      Move ''b'' ''d''] (new_CacheStore empty_MemoryStore empty_MemoryStore 100)"
    by code_simp
  show ?thesis
    using budget_invariant [OF pos tracked] tracked by (simp add: memory_CacheStore_def)
qed


section \<open>CacheStore: what reaches the tiers\<close>











lemma CacheStore_stream_hit:
  assumes "tracked this k = Some (Some n)" and "n \<noteq> 0"
  shows "CacheStore_stream C F k this
           = on_cache ''stream'' [Str k] (stream C k) (this\<lparr>lru := snd (LRU_get (lru this) k)\<rparr>)"
  using assms by (simp add: CacheStore_stream_def lru_get_def LRU_get_def tracked_def cache_hit_def)

lemma CacheStore_unlink_frame:
  "lru (snd (CacheStore_unlink C F k this)) = lru this \<and>
   moves (snd (CacheStore_unlink C F k this)) = moves this"
  by (auto simp: CacheStore_unlink_def on_cache_def on_fallback_def split: prod.splits sum.splits)

section \<open>CacheStore: read-through\<close>

lemma read_through_leaves_tracker:
  "tracked this k = None \<Longrightarrow> lru (snd (CacheStore_stream C F k this)) = lru this"
  using lru_CacheStore_stream [of C F k this] by (auto simp: tracked_def LRU_get_def)

text \<open>
  C2 says that a read of an untracked key registers the key in the tracker once the
  read-through has completed, so that the next read is served by the cache tier. The
  callback that runs after the read-through calls \<open>lru.get(key)\<close>, which registers
  nothing. With a budget of 100 bytes, write 40 bytes under each of \<open>a\<close>, \<open>b\<close>, \<open>c\<close>
  (which evicts \<open>a\<close>) and read \<open>a\<close>: the read yields the 40 bytes from the fallback tier
  and writes them to the cache tier, the tracker still holds \<open>c\<close> and \<open>b\<close> only, the
  cache tier now holds \<open>a\<close> outside the budget, and reading \<open>a\<close> again goes to the
  fallback tier again.
\<close>

theorem read_through_not_registered:
  "fst (CacheStore_stream MemoryStore_object MemoryStore_object ''a''
         (run MemoryStore_object MemoryStore_object
            [Ensure ''a'' (blob 40), Ensure ''b'' (blob 40), Ensure ''c'' (blob 40)]
            (memory_CacheStore 100)))
     = Inr (replicate 40 0) \<and>
   lru_list (lru (run MemoryStore_object MemoryStore_object
            [Ensure ''a'' (blob 40), Ensure ''b'' (blob 40), Ensure ''c'' (blob 40), Stream ''a'']
            (memory_CacheStore 100)))
     = [(''c'', Some 40), (''b'', Some 40)] \<and>
   data (cacheStore (run MemoryStore_object MemoryStore_object
            [Ensure ''a'' (blob 40), Ensure ''b'' (blob 40), Ensure ''c'' (blob 40), Stream ''a'']
            (memory_CacheStore 100))) ''a''
     = Some (Buffer (replicate 40 0)) \<and>
   calls (snd (CacheStore_stream MemoryStore_object MemoryStore_object ''a''
            (run MemoryStore_object MemoryStore_object
               [Ensure ''a'' (blob 40), Ensure ''b'' (blob 40), Ensure ''c'' (blob 40), Stream ''a'']
               (memory_CacheStore 100))))
     = calls (run MemoryStore_object MemoryStore_object
               [Ensure ''a'' (blob 40), Ensure ''b'' (blob 40), Ensure ''c'' (blob 40), Stream ''a'']
               (memory_CacheStore 100))
       @ [Call Fallback ''stream'' [Str ''a''], Call Cache ''ensure'' [Str ''a'', Readable (blob 40)]]"
  by code_simp

section \<open>CacheStore: proxied methods, results\<close>

lemma install_keeps:
  "map_of installed name = Some p \<Longrightarrow> map_of (fold (install limit q) names installed) name = Some p"
proof (induction names arbitrary: installed)
  case Nil
  then show ?case by simp
next
  case (Cons n names)
  have "map_of (install limit q n installed) name = Some p"
    using Cons.prems by (auto simp: install_def map_add_def split: option.splits)
  then show ?case using Cons.IH by simp
qed

lemma install_adds:
  "name \<in> set names \<Longrightarrow> \<not> defined_by_CacheStore limit name \<Longrightarrow> map_of installed name = None \<Longrightarrow>
   map_of (fold (install limit q) names installed) name = Some q"
proof (induction names arbitrary: installed)
  case Nil
  then show ?case by simp
next
  case (Cons n names)
  show ?case
  proof (cases "n = name")
    case True
    then have "map_of (install limit q n installed) name = Some q"
      using Cons.prems by (simp add: install_def map_add_def)
    then show ?thesis using install_keeps by simp
  next
    case False
    then have "map_of (install limit q n installed) name = None"
      using Cons.prems by (auto simp: install_def map_add_def split: option.splits)
    then show ?thesis using Cons.IH [of "install limit q n installed"] Cons.prems False by simp
  qed
qed

lemma install_origin:
  "map_of (fold (install limit q) names installed) name = Some p \<Longrightarrow>
   map_of installed name = Some p \<or> (p = q \<and> name \<in> set names \<and> map_of installed name = None)"
proof (induction names arbitrary: installed)
  case Nil
  then show ?case by simp
next
  case (Cons n names)
  from Cons.IH [of "install limit q n installed"] Cons.prems
  have "map_of (install limit q n installed) name = Some p \<or>
        (p = q \<and> name \<in> set names \<and> map_of (install limit q n installed) name = None)"
    by simp
  then show ?case
    by (auto simp: install_def map_add_def split: if_splits option.splits)
qed

lemma install_defined:
  "defined_by_CacheStore limit name \<Longrightarrow> map_of installed name = None \<Longrightarrow>
   map_of (fold (install limit q) names installed) name = None"
proof (induction names arbitrary: installed)
  case Nil
  then show ?case by simp
next
  case (Cons n names)
  have "map_of (install limit q n installed) name = None"
    using Cons.prems by (auto simp: install_def map_add_def split: option.splits)
  then show ?case using Cons.IH Cons.prems(1) by simp
qed

lemma proxies_ViaCache:
  assumes "map_of (methods C) name = Some mc" and "\<not> defined_by_CacheStore limit name"
  shows "map_of (proxies C F limit) name = Some ViaCache"
proof -
  have "name \<in> set (map fst (methods C))" using assms(1) by (force dest: map_of_SomeD)
  then have "map_of (fold (install limit ViaCache) (map fst (methods C)) []) name = Some ViaCache"
    using install_adds [of name _ limit "[]" ViaCache] assms(2) by simp
  then show ?thesis by (simp add: proxies_def install_keeps)
qed

lemma proxies_ViaFallback:
  assumes "map_of (proxies C F limit) name = Some ViaFallback"
  shows "map_of (methods C) name = None \<and> name \<in> fst ` set (methods F)"
proof -
  let ?first = "fold (install limit ViaCache) (map fst (methods C)) []"
  from install_origin [of limit ViaFallback "map fst (methods F)" ?first name ViaFallback] assms
  have "map_of ?first name = Some ViaFallback \<or>
        (name \<in> set (map fst (methods F)) \<and> map_of ?first name = None)"
    by (simp add: proxies_def)
  moreover have "map_of ?first name \<noteq> Some ViaFallback"
    using install_origin [of limit ViaCache "map fst (methods C)" "[]" name ViaFallback] by auto
  ultimately have f: "name \<in> set (map fst (methods F))" and none: "map_of ?first name = None" by auto
  have undefined: "\<not> defined_by_CacheStore limit name"
  proof
    assume d: "defined_by_CacheStore limit name"
    have "map_of (proxies C F limit) name = None"
      by (simp add: proxies_def install_defined [OF d])
    then show False using assms by simp
  qed
  have "map_of (methods C) name = None"
  proof (rule ccontr)
    assume "map_of (methods C) name \<noteq> None"
    then obtain mc where "map_of (methods C) name = Some mc" by auto
    then have "name \<in> set (map fst (methods C))" by (force dest: map_of_SomeD)
    then have "map_of ?first name = Some ViaCache"
      using install_adds [of name _ limit "[]" ViaCache] undefined by simp
    then show False using none by simp
  qed
  then show ?thesis using f by simp
qed

text \<open>
  C3, as stated, makes the composite call's result the cache tier's result. With a method
  on both tiers that answers \<open>bothCache\<close> on the cache tier and \<open>bothFallback\<close> on the
  fallback tier, as in the tests, the composite call answers \<open>bothFallback\<close>.
\<close>

theorem proxy_result_counterexample:
  "fst ((\<lambda>args st. (Inr (Str ''bothCache''), st)) [Str ''bar'', Num 3] empty_MemoryStore)
     = (Inr (Str ''bothCache'') :: val result) \<and>
   map_of (methods (MemoryStore_offering ''onCacheAndFallback'' (Str ''bothCache''))) ''onCacheAndFallback''
     \<noteq> None \<and>
   fst (CacheStore_invoke (MemoryStore_offering ''onCacheAndFallback'' (Str ''bothCache''))
          (MemoryStore_offering ''onCacheAndFallback'' (Str ''bothFallback''))
          ''onCacheAndFallback'' [Str ''bar'', Num 3] (memory_CacheStore 100))
     = Inr (Str ''bothFallback'')"
  by code_simp

text \<open>
  C3, amended. For a name that both tiers offer as a method and that CacheStore does not
  define itself, the composite call calls the cache tier's method first; when that call
  succeeds it then calls the fallback tier's method with the same arguments, and the
  composite call's result is the fallback tier's result. When the cache tier's call fails,
  the fallback tier is not called and the composite call fails with the same error.
\<close>

theorem proxy_spec:
  assumes "map_of (methods C) name = Some mc" and "map_of (methods F) name = Some mf"
    and "\<not> defined_by_CacheStore (cacheLimit this) name"
  shows "(fst (mc args (cacheStore this)) = Inr ret \<longrightarrow>
            CacheStore_invoke C F name args this
              = (fst (mf args (fallbackStore this)),
                 this\<lparr>cacheStore := snd (mc args (cacheStore this)),
                      fallbackStore := snd (mf args (fallbackStore this)),
                      calls := calls this @ [Call Cache name args, Call Fallback name args]\<rparr>)) \<and>
         (fst (mc args (cacheStore this)) = Inl e \<longrightarrow>
            CacheStore_invoke C F name args this
              = (Inl e, this\<lparr>cacheStore := snd (mc args (cacheStore this)),
                           calls := calls this @ [Call Cache name args]\<rparr>))"
  using assms proxies_ViaCache [OF assms(1,3), of F]
  by (auto simp: CacheStore_invoke_def on_cache_def on_fallback_def split: prod.splits)

theorem proxy_spec_witness:
  "map_of (methods (MemoryStore_offering ''onCacheAndFallback'' (Str ''bothCache''))) ''onCacheAndFallback''
     = Some (\<lambda>args st. (Inr (Str ''bothCache''), st)) \<and>
   \<not> defined_by_CacheStore 100 ''onCacheAndFallback'' \<and>
   CacheStore_invoke (MemoryStore_offering ''onCacheAndFallback'' (Str ''bothCache''))
     (MemoryStore_offering ''onCacheAndFallback'' (Str ''bothFallback''))
     ''onCacheAndFallback'' [Str ''bar'', Num 3] (memory_CacheStore 100)
     = (Inr (Str ''bothFallback''),
        (memory_CacheStore 100)
          \<lparr>calls := [Call Cache ''onCacheAndFallback'' [Str ''bar'', Num 3],
                     Call Fallback ''onCacheAndFallback'' [Str ''bar'', Num 3]]\<rparr>) \<and>
   CacheStore_invoke (MemoryStore_rejecting ''onCacheAndFallback'' (Error ''no''))
     (MemoryStore_offering ''onCacheAndFallback'' (Str ''bothFallback''))
     ''onCacheAndFallback'' [Str ''bar'', Num 3] (memory_CacheStore 100)
     = (Inl (Error ''no''),
        (memory_CacheStore 100)\<lparr>calls := [Call Cache ''onCacheAndFallback'' [Str ''bar'', Num 3]]\<rparr>)"
proof -
  let ?c = "MemoryStore_offering ''onCacheAndFallback'' (Str ''bothCache'')"
  let ?r = "MemoryStore_rejecting ''onCacheAndFallback'' (Error ''no'')"
  let ?f = "MemoryStore_offering ''onCacheAndFallback'' (Str ''bothFallback'')"
  have c: "map_of (methods ?c) ''onCacheAndFallback'' = Some (\<lambda>args st. (Inr (Str ''bothCache''), st))"
    by (simp add: MemoryStore_offering_def)
  have r: "map_of (methods ?r) ''onCacheAndFallback'' = Some (\<lambda>args st. (Inl (Error ''no''), st))"
    by (simp add: MemoryStore_rejecting_def)
  have f: "map_of (methods ?f) ''onCacheAndFallback'' = Some (\<lambda>args st. (Inr (Str ''bothFallback''), st))"
    by (simp add: MemoryStore_offering_def)
  have u: "\<not> defined_by_CacheStore (cacheLimit (memory_CacheStore 100)) ''onCacheAndFallback''"
    by (simp add: defined_by_CacheStore_def memory_CacheStore_def new_CacheStore_def)
  show ?thesis
    using proxy_spec [OF c f u, where args = "[Str ''bar'', Num 3]" and ret = "Str ''bothCache''"
                        and e = "Error ''no''"]
          proxy_spec [OF r f u, where args = "[Str ''bar'', Num 3]" and ret = "Str ''bothCache''"
                        and e = "Error ''no''"] c u
    by (simp add: memory_CacheStore_def new_CacheStore_def)
qed

section \<open>CacheStore: eviction\<close>




section \<open>CacheStore: rename\<close>




section \<open>CacheStore: unlink and exists\<close>

text \<open>
  C6. Deleting a key calls \<open>unlink\<close> on the fallback tier and on the cache tier, and a
  deletion that resolves resolves with what the fallback tier's \<open>unlink\<close> answered, whatever
  the cache tier answered. An existence check calls \<open>exists\<close> on the fallback tier only and
  returns its answer; the cache tier is neither called nor changed.
\<close>

theorem CacheStore_unlink_exists:
  "calls (snd (CacheStore_unlink C F k this))
     = calls this @ [Call Fallback ''unlink'' [Str k], Call Cache ''unlink'' [Str k]] \<and>
   fallbackStore (snd (CacheStore_unlink C F k this)) = snd (unlink F k (fallbackStore this)) \<and>
   cacheStore (snd (CacheStore_unlink C F k this)) = snd (unlink C k (cacheStore this)) \<and>
   (fst (CacheStore_unlink C F k this) = Inr ret \<longrightarrow>
      fst (unlink F k (fallbackStore this)) = Inr ret) \<and>
   (fst (unlink F k (fallbackStore this)) = Inr ret \<and>
    fst (unlink C k (cacheStore this)) = Inr ret' \<longrightarrow>
      fst (CacheStore_unlink C F k this) = Inr ret) \<and>
   CacheStore_exists F k this
     = (fst (exists F k (fallbackStore this)),
        this\<lparr>fallbackStore := snd (exists F k (fallbackStore this)),
             calls := calls this @ [Call Fallback ''exists'' [Str k]]\<rparr>)"
  by (auto simp: CacheStore_unlink_def CacheStore_exists_def on_cache_def on_fallback_def
           split: prod.splits sum.splits)

theorem CacheStore_unlink_exists_witness:
  "fst (CacheStore_unlink (MemoryStore_answering (Str ''cache'')) (MemoryStore_answering (Str ''fallback''))
         ''k'' (memory_CacheStore 100)) = Inr (Str ''fallback'') \<and>
   fst (unlink (MemoryStore_answering (Str ''fallback'')) ''k'' (fallbackStore (memory_CacheStore 100)))
     = Inr (Str ''fallback'') \<and>
   fst (unlink (MemoryStore_answering (Str ''cache'')) ''k'' (cacheStore (memory_CacheStore 100)))
     = Inr (Str ''cache'') \<and>
   calls (snd (CacheStore_unlink (MemoryStore_answering (Str ''cache'')) (MemoryStore_answering (Str ''fallback''))
         ''k'' (memory_CacheStore 100)))
     = [Call Fallback ''unlink'' [Str ''k''], Call Cache ''unlink'' [Str ''k'']] \<and>
   fst (CacheStore_exists (MemoryStore_answering (Str ''fallback'')) ''k'' (memory_CacheStore 100))
     = Inr (Str ''fallback'')"
  using CacheStore_unlink_exists
          [of "MemoryStore_answering (Str ''cache'')" "MemoryStore_answering (Str ''fallback'')"
              "''k''" "memory_CacheStore 100" "Str ''fallback''" "Str ''cache''"]
  by (simp add: MemoryStore_answering_def memory_CacheStore_def new_CacheStore_def)

text \<open>
  C9, as stated, has every key that is tracked before a deletion served by the cache tier
  afterwards. An entry of size zero is tracked, and stays tracked, but \<open>if (size)\<close> sends
  the read to the fallback tier.
\<close>

theorem unlink_stale_entry_counterexample:
  "tracked (run MemoryStore_object MemoryStore_object [Ensure ''k'' (blob 0)] (memory_CacheStore 100)) ''k''
     = Some (Some 0) \<and>
   tracked (run MemoryStore_object MemoryStore_object [Ensure ''k'' (blob 0), Unlink ''k'']
              (memory_CacheStore 100)) ''k''
     = Some (Some 0) \<and>
   calls (snd (CacheStore_stream MemoryStore_object MemoryStore_object ''k''
            (run MemoryStore_object MemoryStore_object [Ensure ''k'' (blob 0), Unlink ''k'']
               (memory_CacheStore 100))))
     = calls (run MemoryStore_object MemoryStore_object [Ensure ''k'' (blob 0), Unlink ''k'']
               (memory_CacheStore 100))
       @ [Call Fallback ''stream'' [Str ''k''], Call Cache ''ensure'' [Str ''k'', Unfinished]]"
  by code_simp

text \<open>
  C9, amended. A deletion leaves the tracker exactly as it was. A key tracked with a size
  that is a number other than zero is therefore still tracked with that size, and the next read of it takes
  the cache-hit branch: it calls \<open>stream\<close> on the cache tier only, does not touch the
  fallback tier, and its outcome is the cache tier's.
\<close>

theorem unlink_keeps_tracker:
  "lru (snd (CacheStore_unlink C F k this)) = lru this \<and>
   (tracked this k = Some (Some n) \<and> n \<noteq> 0 \<longrightarrow>
      tracked (snd (CacheStore_unlink C F k this)) k = Some (Some n) \<and>
      calls (snd (CacheStore_stream C F k (snd (CacheStore_unlink C F k this))))
        = calls (snd (CacheStore_unlink C F k this)) @ [Call Cache ''stream'' [Str k]] \<and>
      fst (CacheStore_stream C F k (snd (CacheStore_unlink C F k this)))
        = fst (stream C k (cacheStore (snd (CacheStore_unlink C F k this)))) \<and>
      fallbackStore (snd (CacheStore_stream C F k (snd (CacheStore_unlink C F k this))))
        = fallbackStore (snd (CacheStore_unlink C F k this)))"
proof -
  let ?after = "snd (CacheStore_unlink C F k this)"
  have frame: "lru ?after = lru this" using CacheStore_unlink_frame by blast
  have "tracked ?after k = Some (Some n) \<and>
      calls (snd (CacheStore_stream C F k ?after)) = calls ?after @ [Call Cache ''stream'' [Str k]] \<and>
      fst (CacheStore_stream C F k ?after) = fst (stream C k (cacheStore ?after)) \<and>
      fallbackStore (snd (CacheStore_stream C F k ?after)) = fallbackStore ?after"
    if t: "tracked this k = Some (Some n)" and n: "n \<noteq> 0"
  proof -
    have t': "tracked ?after k = Some (Some n)" using t frame by (simp add: tracked_def)
    show ?thesis
      unfolding CacheStore_stream_hit [OF t' n] using t'
      by (simp add: on_cache_def split: prod.splits)
  qed
  then show ?thesis using frame by blast
qed

theorem unlink_keeps_tracker_witness:
  "tracked (run MemoryStore_object MemoryStore_object [Ensure ''k'' (blob 3)] (memory_CacheStore 100)) ''k''
     = Some (Some 3) \<and> (3::int) \<noteq> 0 \<and>
   lru (snd (CacheStore_unlink MemoryStore_object MemoryStore_object ''k''
          (run MemoryStore_object MemoryStore_object [Ensure ''k'' (blob 3)] (memory_CacheStore 100))))
     = \<lparr>lru_max = Some 100, lru_length = Some 3, lru_list = [(''k'', Some 3)]\<rparr> \<and>
   fst (CacheStore_stream MemoryStore_object MemoryStore_object ''k''
          (snd (CacheStore_unlink MemoryStore_object MemoryStore_object ''k''
             (run MemoryStore_object MemoryStore_object [Ensure ''k'' (blob 3)] (memory_CacheStore 100)))))
     = Inl (does_not_exist ''k'')"
proof -
  let ?s = "run MemoryStore_object MemoryStore_object [Ensure ''k'' (blob 3)] (memory_CacheStore 100)"
  have t: "tracked ?s ''k'' = Some (Some 3)" by code_simp
  have l: "lru ?s = \<lparr>lru_max = Some 100, lru_length = Some 3, lru_list = [(''k'', Some 3)]\<rparr>"
    by code_simp
  have c: "fst (stream MemoryStore_object ''k''
             (cacheStore (snd (CacheStore_unlink MemoryStore_object MemoryStore_object ''k'' ?s))))
           = Inl (does_not_exist ''k'')"
    by code_simp
  show ?thesis
    using unlink_keeps_tracker [of MemoryStore_object MemoryStore_object "''k''" ?s 3] t l c
    by simp
qed


section \<open>The facade: content addressing\<close>

text \<open>
  Over a MemoryStore, \<open>put\<close> of a byte sequence that is not empty yields the BlobInfo that
  the bytes and the metadata determine, and reading it yields the bytes, as long as neither
  the temporary nor the final key is \<open>__proto__\<close>.
\<close>

lemma put_MemoryStore:
  assumes "store cfg = MemoryStore_in rt" and "prototype st = None" and "b \<noteq> []"
    and "keyDerivation cfg None meta \<noteq> ''__proto__''"
    and "keyDerivation cfg (Some (hashAlgorithm cfg b)) meta \<noteq> ''__proto__''"
  shows "fst (put cfg (Ends b) meta st)
           = Inr \<lparr>blob_key = keyDerivation cfg (Some (hashAlgorithm cfg b)) meta,
                  blob_hash = Some (hashAlgorithm cfg b), blob_size = Some (length b),
                  blob_meta = meta\<rparr> \<and>
         fst (readFile cfg
                \<lparr>blob_key = keyDerivation cfg (Some (hashAlgorithm cfg b)) meta,
                 blob_hash = Some (hashAlgorithm cfg b), blob_size = Some (length b),
                 blob_meta = meta\<rparr>
                (snd (put cfg (Ends b) meta st))) = Inr b \<and>
         prototype (snd (put cfg (Ends b) meta st)) = None"
  using assms
  by (auto simp: put_def preparePut_def finalizePut_def readFile_def MemoryStore_in_def
        MemoryStore_ensure_def MemoryStore_stream_def MemoryStore_move_def getContents_def
        found_def assign_def Let_def)

text \<open>
  Over a MemoryStore, \<open>put\<close> of the empty byte sequence fails in its rename, with
  \<open>Key ... does not exist!\<close> for the temporary key.
\<close>

lemma put_empty_blob_fails:
  assumes "store cfg = MemoryStore_in rt" and "prototype st = None"
    and "keyDerivation cfg None meta \<noteq> ''__proto__''"
  shows "fst (put cfg (Ends []) meta st) = Inl (does_not_exist (keyDerivation cfg None meta))"
  using assms
  by (auto simp: MemoryStore_ensure_def MemoryStore_move_def MemoryStore_in_def getContents_def
        found_def assign_def put_def preparePut_def finalizePut_def Let_def)

text \<open>
  C8 fails on the repository's own MemoryStore, for the empty byte sequence. Writing an
  empty stream under a key (other than \<open>__proto__\<close>) succeeds and leaves \<open>false\<close> under
  it, whatever was there before: the store then answers that the key does not exist, and
  reading or renaming it fails. So there is nothing to read back, and a \<open>put\<close>, which
  writes under a temporary key and renames, yields no BlobInfo.
\<close>

theorem MemoryStore_empty_blob:
  assumes "prototype st = None" and "k \<noteq> ''__proto__''"
  shows
  "fst (MemoryStore_ensure rt k (Ends []) st) = Inr Undefined \<and>
   fst (MemoryStore_exists rt k (snd (MemoryStore_ensure rt k (Ends []) st))) = Inr (Bool False) \<and>
   fst (MemoryStore_stream rt k (snd (MemoryStore_ensure rt k (Ends []) st)))
     = Inl (does_not_exist k) \<and>
   MemoryStore_move rt k dest (snd (MemoryStore_ensure rt k (Ends []) st))
     = (Rejected (does_not_exist k), snd (MemoryStore_ensure rt k (Ends []) st))"
  using assms
  by (auto simp: MemoryStore_ensure_def MemoryStore_exists_def MemoryStore_stream_def
        MemoryStore_move_def getContents_def found_def assign_def)

theorem MemoryStore_empty_blob_witness:
  "prototype empty_MemoryStore = None \<and> ''tmp/1.txt'' \<noteq> ''__proto__'' \<and>
   fst (MemoryStore_ensure example_runtime ''tmp/1.txt'' (Ends []) empty_MemoryStore)
     = Inr Undefined \<and>
   fst (MemoryStore_stream example_runtime ''tmp/1.txt''
          (snd (MemoryStore_ensure example_runtime ''tmp/1.txt'' (Ends []) empty_MemoryStore)))
     = Inl (does_not_exist ''tmp/1.txt'') \<and>
   fst (put example_cafs (Ends []) ''.txt'' empty_MemoryStore)
     = Inl (does_not_exist ''tmp/1.txt'')"
proof -
  have "fst (put example_cafs (Ends []) ''.txt'' empty_MemoryStore)
          = Inl (does_not_exist ''tmp/1.txt'')"
    by code_simp
  then show ?thesis
    using MemoryStore_empty_blob
            [of empty_MemoryStore "''tmp/1.txt''" example_runtime "''101.txt''"]
    by (simp add: empty_MemoryStore_def)
qed

end
